theory Spec2Isabelle
  imports Main "HOL-Library.Word"
begin

unbundle bit_operations_syntax

section \<open>Calendar arithmetic (class DateTime)\<close>

text \<open>
  \<^verbatim>\<open>class DateTime\<close> keeps six \<^verbatim>\<open>uint8_t\<close> members: \<^verbatim>\<open>yOff\<close> (years since 2000),
  \<^verbatim>\<open>m\<close>, \<^verbatim>\<open>d\<close>, \<^verbatim>\<open>hh\<close>, \<^verbatim>\<open>mm\<close> and \<^verbatim>\<open>ss\<close>. The fields carry the prefix
  \<open>dt_\<close> here, so that one-letter field names do not capture variables.
\<close>

record DateTime =
  dt_yOff :: "8 word"
  dt_m :: "8 word"
  dt_d :: "8 word"
  dt_hh :: "8 word"
  dt_mm :: "8 word"
  dt_ss :: "8 word"

definition SECONDS_FROM_1970_TO_2000 :: "32 word" where
  "SECONDS_FROM_1970_TO_2000 = 946684800"

text \<open>
  \<^verbatim>\<open>const uint8_t daysInMonth[] PROGMEM = {31, 28, 31, 30, 31, 30, 31, 31, 30, 31, 30};\<close>
  The table has eleven entries (December is left out). \<^verbatim>\<open>pgm_read_byte(daysInMonth + k)\<close>
  outside the table reads whatever follows it in flash; the model returns \<open>None\<close> there.
\<close>

definition daysInMonth :: "8 word list" where
  "daysInMonth = [31, 28, 31, 30, 31, 30, 31, 31, 30, 31, 30]"

definition pgm_read_daysInMonth :: "nat \<Rightarrow> 8 word option" where
  "pgm_read_daysInMonth k = (if k < length daysInMonth then Some (daysInMonth ! k) else None)"

text \<open>
  \<^verbatim>\<open>for (uint8_t i = 1; i < m; ++i) days += pgm_read_byte(daysInMonth + i - 1);\<close>
  of \<^verbatim>\<open>date2days\<close>, with \<^verbatim>\<open>days\<close> a \<^verbatim>\<open>uint16_t\<close>.
\<close>

function date2days_loop :: "8 word \<Rightarrow> 8 word \<Rightarrow> 16 word \<Rightarrow> 16 word option" where
  "date2days_loop i m days =
     (if i < m
      then (case pgm_read_daysInMonth (unat i - 1) of
              None \<Rightarrow> None
            | Some b \<Rightarrow> date2days_loop (i + 1) m (days + ucast b))
      else Some days)"
  by pat_completeness auto
termination
proof (relation "measure (\<lambda>(i, m, days). unat m - unat i)")
  show "wf (measure (\<lambda>(i, m, days). unat m - unat i))"
    by simp
next
  fix i m :: "8 word" and days :: "16 word" and b :: "8 word"
  assume lt: "i < m"
  then have a: "unat i < unat m"
    by (simp add: word_less_nat_alt)
  have "unat m < 256"
    using unsigned_less [of m, where ?'a = nat] by simp
  then have "unat (i + 1) = Suc (unat i)"
    using a by (simp add: unat_word_ariths)
  then show "((i + 1, m, days + ucast b), (i, m, days)) \<in> measure (\<lambda>(i, m, days). unat m - unat i)"
    using a by simp
qed

text \<open>
  \<^verbatim>\<open>static uint16_t date2days(uint16_t y, uint8_t m, uint8_t d)\<close>. After the subtraction
  of 2000 the year is at most 63535, so \<^verbatim>\<open>y + 3\<close> does not wrap in 16 bits and the result,
  truncated to \<^verbatim>\<open>uint16_t\<close> on return, is the same for a 16-bit and a 32-bit \<^verbatim>\<open>int\<close>.
\<close>

definition date2days :: "16 word \<Rightarrow> 8 word \<Rightarrow> 8 word \<Rightarrow> 16 word option" where
  "date2days y m d =
     (let y' = (if 2000 \<le> y then y - 2000 else y) in
      case date2days_loop 1 m (ucast d) of
        None \<Rightarrow> None
      | Some days \<Rightarrow>
          (let days' = (if 2 < m \<and> y' mod 4 = 0 then days + 1 else days)
           in Some (days' + 365 * y' + (y' + 3) div 4 - 1)))"

text \<open>
  \<^verbatim>\<open>static long time2long(uint16_t days, uint8_t h, uint8_t m, uint8_t s)\<close> returns
  \<^verbatim>\<open>((days * 24L + h) * 60 + m) * 60 + s\<close>; its callers store the result in 32 bits.
  The model computes modulo \<open>2 ^ 32\<close>, which is what a 32-bit two's complement \<^verbatim>\<open>long\<close>
  holds (from 2068 on the value exceeds \<open>2 ^ 31\<close>).
\<close>

definition time2long :: "16 word \<Rightarrow> 8 word \<Rightarrow> 8 word \<Rightarrow> 8 word \<Rightarrow> 32 word" where
  "time2long days h m s = ((ucast days * 24 + ucast h) * 60 + ucast m) * 60 + ucast s"

text \<open>
  The constructor \<^verbatim>\<open>DateTime::DateTime(uint32_t t)\<close>. Its first loop,
  \<^verbatim>\<open>for (yOff = 0;; ++yOff) { leap = yOff % 4 == 0; if (days < 365 + leap) break; days -= 365 + leap; }\<close>,
  returns the year, the leap flag and the remaining days.
\<close>

definition leap_flag :: "8 word \<Rightarrow> 8 word" where
  "leap_flag yOff = (if yOff mod 4 = 0 then 1 else 0)"

function year_loop :: "8 word \<Rightarrow> 16 word \<Rightarrow> 8 word \<times> 8 word \<times> 16 word" where
  "year_loop yOff days =
     (if unat days < 365 + unat (leap_flag yOff)
      then (yOff, leap_flag yOff, days)
      else year_loop (yOff + 1) (days - (365 + ucast (leap_flag yOff))))"
  by pat_completeness auto
termination
proof (relation "measure (\<lambda>(yOff, days). unat days)")
  show "wf (measure (\<lambda>(yOff, days). unat days))"
    by simp
next
  fix yOff :: "8 word" and days :: "16 word"
  assume ge: "\<not> unat days < 365 + unat (leap_flag yOff)"
  have l: "unat (365 + ucast (leap_flag yOff) :: 16 word) = 365 + unat (leap_flag yOff)"
    by (simp add: leap_flag_def)
  then have "365 + ucast (leap_flag yOff) \<le> days"
    using ge by (simp add: word_le_nat_alt)
  then have "unat (days - (365 + ucast (leap_flag yOff))) = unat days - (365 + unat (leap_flag yOff))"
    using l by (simp add: unat_sub)
  then show "((yOff + 1, days - (365 + ucast (leap_flag yOff))), (yOff, days)) \<in> measure (\<lambda>(yOff, days). unat days)"
    using ge by simp
qed

text \<open>
  The second loop,
  \<^verbatim>\<open>for (m = 1; m < 12; ++m) { daysPerMonth = pgm_read_byte(daysInMonth + m - 1); if (leap && m == 2) ++daysPerMonth; if (days < daysPerMonth) break; days -= daysPerMonth; }\<close>.
\<close>

definition daysPerMonth_of :: "8 word \<Rightarrow> 8 word \<Rightarrow> 8 word \<Rightarrow> 8 word" where
  "daysPerMonth_of leap m b = (if leap \<noteq> 0 \<and> m = 2 then b + 1 else b)"

function month_loop :: "8 word \<Rightarrow> 8 word \<Rightarrow> 16 word \<Rightarrow> (8 word \<times> 16 word) option" where
  "month_loop leap m days =
     (if m < 12
      then (case pgm_read_daysInMonth (unat m - 1) of
              None \<Rightarrow> None
            | Some b \<Rightarrow>
                if unat days < unat (daysPerMonth_of leap m b) then Some (m, days)
                else month_loop leap (m + 1) (days - ucast (daysPerMonth_of leap m b)))
      else Some (m, days))"
  by pat_completeness auto
termination
proof (relation "measure (\<lambda>(leap, m, days). 12 - unat m)")
  show "wf (measure (\<lambda>(leap, m, days). 12 - unat m))"
    by simp
next
  fix leap m :: "8 word" and days :: "16 word" and b :: "8 word"
  assume lt: "m < 12"
  then have a: "unat m < 12"
    by (simp add: word_less_nat_alt)
  then have "unat (m + 1) = Suc (unat m)"
    by (simp add: unat_word_ariths)
  then show "((leap, m + 1, days - ucast (daysPerMonth_of leap m b)), (leap, m, days))
       \<in> measure (\<lambda>(leap, m, days). 12 - unat m)"
    using a by simp
qed

definition DateTime_unixtime :: "32 word \<Rightarrow> DateTime option" where
  "DateTime_unixtime t0 =
     (let t1 = t0 - SECONDS_FROM_1970_TO_2000;
          ss = ucast (t1 mod 60);
          t2 = t1 div 60;
          mm = ucast (t2 mod 60);
          t3 = t2 div 60;
          hh = ucast (t3 mod 24);
          days = (ucast (t3 div 24) :: 16 word);
          (yOff, leap, days') = year_loop 0 days
      in case month_loop leap 1 days' of
           None \<Rightarrow> None
         | Some (m, days'') \<Rightarrow>
             Some \<lparr>dt_yOff = yOff, dt_m = m, dt_d = ucast (days'' + 1),
                   dt_hh = hh, dt_mm = mm, dt_ss = ss\<rparr>)"

text \<open>
  The constructor
  \<^verbatim>\<open>DateTime(uint16_t year, uint8_t month, uint8_t day, uint8_t hour, uint8_t min, uint8_t sec)\<close>
  and the accessors of the class.
\<close>

definition DateTime_fields ::
  "16 word \<Rightarrow> 8 word \<Rightarrow> 8 word \<Rightarrow> 8 word \<Rightarrow> 8 word \<Rightarrow> 8 word \<Rightarrow> DateTime" where
  "DateTime_fields year month day hour mn sec =
     \<lparr>dt_yOff = ucast (if 2000 \<le> year then year - 2000 else year),
      dt_m = month, dt_d = day, dt_hh = hour, dt_mm = mn, dt_ss = sec\<rparr>"

definition DateTime_year :: "DateTime \<Rightarrow> 16 word" where
  "DateTime_year dt = 2000 + ucast (dt_yOff dt)"

definition DateTime_month :: "DateTime \<Rightarrow> 8 word" where
  "DateTime_month dt = dt_m dt"

definition DateTime_day :: "DateTime \<Rightarrow> 8 word" where
  "DateTime_day dt = dt_d dt"

definition DateTime_hour :: "DateTime \<Rightarrow> 8 word" where
  "DateTime_hour dt = dt_hh dt"

definition DateTime_minute :: "DateTime \<Rightarrow> 8 word" where
  "DateTime_minute dt = dt_mm dt"

definition DateTime_second :: "DateTime \<Rightarrow> 8 word" where
  "DateTime_second dt = dt_ss dt"

text \<open>
  \<^verbatim>\<open>uint32_t DateTime::unixtime(void) const\<close> and \<^verbatim>\<open>uint8_t DateTime::dayOfTheWeek() const\<close>.
  Both are \<open>None\<close> where \<^verbatim>\<open>date2days\<close> reads past its table (a month above 12).
  \<^verbatim>\<open>(day + 6) % 7\<close> is taken without wrap-around, as a 32-bit \<^verbatim>\<open>int\<close> does; a 16-bit
  \<^verbatim>\<open>int\<close> differs only for day numbers from 65530 on, which no date before the year
  2179 has.
\<close>

definition unixtime :: "DateTime \<Rightarrow> 32 word option" where
  "unixtime dt =
     (case date2days (ucast (dt_yOff dt)) (dt_m dt) (dt_d dt) of
        None \<Rightarrow> None
      | Some days \<Rightarrow>
          Some (time2long days (dt_hh dt) (dt_mm dt) (dt_ss dt) + SECONDS_FROM_1970_TO_2000))"

definition dayOfTheWeek :: "DateTime \<Rightarrow> 8 word option" where
  "dayOfTheWeek dt =
     (case date2days (ucast (dt_yOff dt)) (dt_m dt) (dt_d dt) of
        None \<Rightarrow> None
      | Some day \<Rightarrow> Some (of_nat ((unat day + 6) mod 7)))"

subsection \<open>Durations (class TimeSpan) and the operators\<close>

text \<open>
  \<^verbatim>\<open>class TimeSpan\<close> holds \<^verbatim>\<open>int32_t _seconds\<close>. \<^verbatim>\<open>DateTime::operator+(const TimeSpan &)\<close>
  is \<^verbatim>\<open>DateTime(unixtime() + span.totalseconds())\<close> and
  \<^verbatim>\<open>DateTime::operator-(const DateTime &)\<close> is \<^verbatim>\<open>TimeSpan(unixtime() - right.unixtime())\<close>;
  both sums are taken in 32 bits, and the conversions between \<^verbatim>\<open>uint32_t\<close> and
  \<^verbatim>\<open>int32_t\<close> keep the bits (\<open>sint\<close> reads the signed value).
\<close>

record TimeSpan =
  ts_seconds :: "32 word"

definition TimeSpan_seconds :: "32 word \<Rightarrow> TimeSpan" where
  "TimeSpan_seconds seconds = \<lparr>ts_seconds = seconds\<rparr>"

definition totalseconds :: "TimeSpan \<Rightarrow> 32 word" where
  "totalseconds span = ts_seconds span"

definition DateTime_plus :: "DateTime \<Rightarrow> TimeSpan \<Rightarrow> DateTime option" where
  "DateTime_plus dt span =
     (case unixtime dt of
        None \<Rightarrow> None
      | Some t \<Rightarrow> DateTime_unixtime (t + totalseconds span))"

definition DateTime_minus :: "DateTime \<Rightarrow> DateTime \<Rightarrow> TimeSpan option" where
  "DateTime_minus dt right =
     (case unixtime dt of
        None \<Rightarrow> None
      | Some t \<Rightarrow>
          (case unixtime right of
             None \<Rightarrow> None
           | Some r \<Rightarrow> Some (TimeSpan_seconds (t - r))))"

subsection \<open>Calendar values and their day numbers\<close>

text \<open>
  The calendar of the data model, independent of the code above: the length of a month
  (leap years are those with \<open>yOff mod 4 = 0\<close>), the days of a year before a month, the
  days before a year (counted from 2000-01-01), and the valid calendar values of
  2000-01-01 to 2099-12-31.
\<close>

definition days_in_month :: "bool \<Rightarrow> nat \<Rightarrow> nat" where
  "days_in_month leap k =
     (if k = 2 then (if leap then 29 else 28)
      else if k = 4 \<or> k = 6 \<or> k = 9 \<or> k = 11 then 30 else 31)"

fun cum_days :: "bool \<Rightarrow> nat \<Rightarrow> nat" where
  "cum_days leap 0 = 0"
| "cum_days leap (Suc k) = cum_days leap k + days_in_month leap (Suc k)"

definition year_start :: "nat \<Rightarrow> nat" where
  "year_start y = 365 * y + (y + 3) div 4"

definition year_len :: "nat \<Rightarrow> nat" where
  "year_len y = (if y mod 4 = 0 then 366 else 365)"

definition valid_calendar :: "DateTime \<Rightarrow> bool" where
  "valid_calendar dt \<longleftrightarrow>
     unat (dt_yOff dt) \<le> 99 \<and>
     1 \<le> unat (dt_m dt) \<and> unat (dt_m dt) \<le> 12 \<and>
     1 \<le> unat (dt_d dt) \<and>
     unat (dt_d dt) \<le> days_in_month (unat (dt_yOff dt) mod 4 = 0) (unat (dt_m dt)) \<and>
     unat (dt_hh dt) \<le> 23 \<and> unat (dt_mm dt) \<le> 59 \<and> unat (dt_ss dt) \<le> 59"

definition valid_2001_2099 :: "DateTime \<Rightarrow> bool" where
  "valid_2001_2099 dt \<longleftrightarrow> valid_calendar dt \<and> 1 \<le> unat (dt_yOff dt)"

definition day_number :: "DateTime \<Rightarrow> nat" where
  "day_number dt =
     year_start (unat (dt_yOff dt))
       + cum_days (unat (dt_yOff dt) mod 4 = 0) (unat (dt_m dt) - 1)
       + (unat (dt_d dt) - 1)"

definition unix_seconds :: "DateTime \<Rightarrow> nat" where
  "unix_seconds dt =
     day_number dt * 86400 + unat (dt_hh dt) * 3600 + unat (dt_mm dt) * 60 + unat (dt_ss dt)
       + 946684800"

text \<open>
  The sum of a calendar value and a duration lies in the valid range when the 32-bit
  sum that \<^verbatim>\<open>operator+\<close> passes to the constructor is the Unix time of an instant from
  2000-01-01T00:00:00 (946684800) to 2099-12-31T23:59:59 (4102444799).
\<close>

definition sum_in_range :: "DateTime \<Rightarrow> TimeSpan \<Rightarrow> bool" where
  "sum_in_range dt span =
     (case unixtime dt of
        None \<Rightarrow> False
      | Some t \<Rightarrow> 946684800 \<le> t + totalseconds span \<and> t + totalseconds span \<le> 4102444799)"

definition plus_then_minus :: "DateTime \<Rightarrow> TimeSpan \<Rightarrow> TimeSpan option" where
  "plus_then_minus dt span =
     (case DateTime_plus dt span of
        None \<Rightarrow> None
      | Some later \<Rightarrow> DateTime_minus later dt)"

section \<open>Formatting\<close>

subsection \<open>ISO 8601 timestamps\<close>

text \<open>
  \<^verbatim>\<open>String DateTime::timestamp(timestampOpt opt)\<close> prints into \<^verbatim>\<open>char buffer[20]\<close> with
  \<^verbatim>\<open>sprintf\<close>: \<^verbatim>\<open>"%02d:%02d:%02d"\<close> for the time, \<^verbatim>\<open>"%d-%02d-%02d"\<close> for the date and
  \<^verbatim>\<open>"%d-%02d-%02dT%02d:%02d:%02d"\<close> otherwise. All arguments are non-negative.
  \<open>sprintf_d\<close> is the conversion \<^verbatim>\<open>%d\<close> and \<open>sprintf_02d\<close> is \<^verbatim>\<open>%02d\<close>. An output of
  more than 19 characters does not fit the buffer with its terminator: \<open>None\<close>.
\<close>

datatype timestampOpt = TIMESTAMP_FULL | TIMESTAMP_TIME | TIMESTAMP_DATE

definition digit_char :: "nat \<Rightarrow> char" where
  "digit_char n = char_of (of_char CHR ''0'' + n)"

fun sprintf_d :: "nat \<Rightarrow> string" where
  "sprintf_d n = (if n < 10 then [digit_char n] else sprintf_d (n div 10) @ [digit_char (n mod 10)])"

definition sprintf_02d :: "nat \<Rightarrow> string" where
  "sprintf_02d n = (if n < 10 then CHR ''0'' # sprintf_d n else sprintf_d n)"

definition timestamp :: "timestampOpt \<Rightarrow> DateTime \<Rightarrow> string option" where
  "timestamp opt dt =
     (let out =
        (case opt of
           TIMESTAMP_TIME \<Rightarrow>
             sprintf_02d (unat (dt_hh dt)) @ '':'' @ sprintf_02d (unat (dt_mm dt)) @ '':''
               @ sprintf_02d (unat (dt_ss dt))
         | TIMESTAMP_DATE \<Rightarrow>
             sprintf_d (2000 + unat (dt_yOff dt)) @ ''-'' @ sprintf_02d (unat (dt_m dt)) @ ''-''
               @ sprintf_02d (unat (dt_d dt))
         | TIMESTAMP_FULL \<Rightarrow>
             sprintf_d (2000 + unat (dt_yOff dt)) @ ''-'' @ sprintf_02d (unat (dt_m dt)) @ ''-''
               @ sprintf_02d (unat (dt_d dt)) @ ''T'' @ sprintf_02d (unat (dt_hh dt)) @ '':''
               @ sprintf_02d (unat (dt_mm dt)) @ '':'' @ sprintf_02d (unat (dt_ss dt)))
      in if length out < 20 then Some out else None)"

subsection \<open>The pattern formatter toString\<close>

text \<open>
  \<^verbatim>\<open>char *DateTime::toString(char *buffer)\<close> rewrites the pattern in place. The model
  keeps the array the pointer refers to as a list of characters (the C string is its
  prefix up to the first NUL, and the rest is what lies behind the terminator in the
  same array) together with the trace of the indices read and written. An access
  behind the end of the array stops the run with a fault, which carries the state
  reached.
\<close>

datatype access = Read nat | Write nat

datatype fault = BufferFault access | NoTerminator | TableFault | IntOverflow

type_synonym buffer_state = "string \<times> access list"

definition and_then :: "('e + 'a) \<Rightarrow> ('a \<Rightarrow> 'e + 'b) \<Rightarrow> 'e + 'b" where
  "and_then r f = (case r of Inl e \<Rightarrow> Inl e | Inr x \<Rightarrow> f x)"

definition buf_read :: "nat \<Rightarrow> buffer_state \<Rightarrow> (fault \<times> buffer_state) + (char \<times> buffer_state)" where
  "buf_read k s =
     (if k < length (fst s) then Inr (fst s ! k, (fst s, snd s @ [Read k]))
      else Inl (BufferFault (Read k), s))"

definition buf_write :: "nat \<Rightarrow> char \<Rightarrow> buffer_state \<Rightarrow> (fault \<times> buffer_state) + buffer_state" where
  "buf_write k c s =
     (if k < length (fst s) then Inr ((fst s)[k := c], snd s @ [Write k])
      else Inl (BufferFault (Write k), s))"

text \<open>\<^verbatim>\<open>strlen\<close>: the index of the first NUL; \<open>None\<close> when the array holds none.\<close>

fun strlen :: "string \<Rightarrow> nat option" where
  "strlen [] = None"
| "strlen (c # cs) = (if c = CHR 0x00 then Some 0 else map_option Suc (strlen cs))"

text \<open>
  A condition \<^verbatim>\<open>buffer[i] == c0 && buffer[i + 1] == c1 && ...\<close>: the characters are read
  from left to right, and the first mismatch ends the evaluation.
\<close>

fun expect :: "nat \<Rightarrow> string \<Rightarrow> buffer_state \<Rightarrow> (fault \<times> buffer_state) + (bool \<times> buffer_state)" where
  "expect i [] s = Inr (True, s)"
| "expect i (c # cs) s =
     (case buf_read i s of
        Inl e \<Rightarrow> Inl e
      | Inr (x, s') \<Rightarrow> if x = c then expect (Suc i) cs s' else Inr (False, s'))"

text \<open>The assignments \<^verbatim>\<open>buffer[i] = c0; buffer[i + 1] = c1; ...\<close>\<close>

fun store_at :: "nat \<Rightarrow> string \<Rightarrow> buffer_state \<Rightarrow> (fault \<times> buffer_state) + buffer_state" where
  "store_at i [] s = Inr s"
| "store_at i (c # cs) s =
     (case buf_write i c s of Inl e \<Rightarrow> Inl e | Inr s' \<Rightarrow> store_at (Suc i) cs s')"

text \<open>
  The name tables \<^verbatim>\<open>day_names[] = "SunMonTueWedThuFriSat"\<close> and
  \<^verbatim>\<open>month_names[] = "JanFebMarAprMayJunJulAugSepOctNovDec"\<close> with their terminators, and
  \<^verbatim>\<open>buffer[i] = pgm_read_byte(p); buffer[i + 1] = pgm_read_byte(p + 1); buffer[i + 2] = pgm_read_byte(p + 2);\<close>.
  A read outside a table is a fault.
\<close>

definition day_names :: string where
  "day_names = ''SunMonTueWedThuFriSat'' @ [CHR 0x00]"

definition month_names :: string where
  "month_names = ''JanFebMarAprMayJunJulAugSepOctNovDec'' @ [CHR 0x00]"

definition pgm_read_string :: "string \<Rightarrow> int \<Rightarrow> char option" where
  "pgm_read_string tbl k = (if 0 \<le> k \<and> nat k < length tbl then Some (tbl ! nat k) else None)"

fun copy_pgm ::
  "string \<Rightarrow> int \<Rightarrow> nat \<Rightarrow> nat \<Rightarrow> buffer_state \<Rightarrow> (fault \<times> buffer_state) + buffer_state" where
  "copy_pgm tbl p i 0 s = Inr s"
| "copy_pgm tbl p i (Suc n) s =
     (case pgm_read_string tbl p of
        None \<Rightarrow> Inl (TableFault, s)
      | Some c \<Rightarrow>
          (case buf_write i c s of
             Inl e \<Rightarrow> Inl e
           | Inr s' \<Rightarrow> copy_pgm tbl (p + 1) (Suc i) n s'))"

text \<open>
  \<^verbatim>\<open>'0' + v / 10\<close> and \<^verbatim>\<open>'0' + v % 10\<close> for the two-letter tokens, and
  \<^verbatim>\<open>'0' + (yOff / 10) % 10\<close>, \<^verbatim>\<open>'0' + yOff % 10\<close> for the year.
\<close>

definition two_digits :: "8 word \<Rightarrow> string" where
  "two_digits v = [digit_char (unat v div 10), digit_char (unat v mod 10)]"

definition year_digits :: "8 word \<Rightarrow> string" where
  "year_digits v = [digit_char (unat v div 10 mod 10), digit_char (unat v mod 10)]"

text \<open>
  The \<^verbatim>\<open>if\<close> statements of the loop body, in the order of the source: \<^verbatim>\<open>hh\<close>,
  \<^verbatim>\<open>mm\<close>, \<^verbatim>\<open>ss\<close>, then \<^verbatim>\<open>DDD\<close> else \<^verbatim>\<open>DD\<close>, \<^verbatim>\<open>MMM\<close> else \<^verbatim>\<open>MM\<close>, and
  \<^verbatim>\<open>YYYY\<close> else \<^verbatim>\<open>YY\<close>.
\<close>

definition subst_numeric ::
  "char \<Rightarrow> string \<Rightarrow> nat \<Rightarrow> buffer_state \<Rightarrow> (fault \<times> buffer_state) + buffer_state" where
  "subst_numeric c digits i s =
     and_then (expect i [c, c] s) (\<lambda>(hit, s'). if hit then store_at i digits s' else Inr s')"

definition subst_day ::
  "DateTime \<Rightarrow> nat \<Rightarrow> buffer_state \<Rightarrow> (fault \<times> buffer_state) + buffer_state" where
  "subst_day dt i s =
     and_then (expect i ''DDD'' s) (\<lambda>(hit, s').
       if hit then
         (case dayOfTheWeek dt of
            None \<Rightarrow> Inl (TableFault, s')
          | Some dow \<Rightarrow> copy_pgm day_names (3 * int (unat dow)) i 3 s')
       else subst_numeric CHR ''D'' (two_digits (dt_d dt)) i s')"

definition subst_month ::
  "DateTime \<Rightarrow> nat \<Rightarrow> buffer_state \<Rightarrow> (fault \<times> buffer_state) + buffer_state" where
  "subst_month dt i s =
     and_then (expect i ''MMM'' s) (\<lambda>(hit, s').
       if hit then copy_pgm month_names (3 * (int (unat (dt_m dt)) - 1)) i 3 s'
       else subst_numeric CHR ''M'' (two_digits (dt_m dt)) i s')"

definition subst_year ::
  "DateTime \<Rightarrow> nat \<Rightarrow> buffer_state \<Rightarrow> (fault \<times> buffer_state) + buffer_state" where
  "subst_year dt i s =
     and_then (expect i ''YYYY'' s) (\<lambda>(hit, s').
       if hit then store_at i (''20'' @ year_digits (dt_yOff dt)) s'
       else subst_numeric CHR ''Y'' (year_digits (dt_yOff dt)) i s')"

definition toString_body ::
  "DateTime \<Rightarrow> nat \<Rightarrow> buffer_state \<Rightarrow> (fault \<times> buffer_state) + buffer_state" where
  "toString_body dt i s =
     and_then (subst_numeric CHR ''h'' (two_digits (dt_hh dt)) i s) (\<lambda>s1.
     and_then (subst_numeric CHR ''m'' (two_digits (dt_mm dt)) i s1) (\<lambda>s2.
     and_then (subst_numeric CHR ''s'' (two_digits (dt_ss dt)) i s2) (\<lambda>s3.
     and_then (subst_day dt i s3) (\<lambda>s4.
     and_then (subst_month dt i s4) (\<lambda>s5.
     subst_year dt i s5)))))"

text \<open>
  The loop \<^verbatim>\<open>for (int i = 0; i < strlen(buffer) - 1; i++)\<close>. \<^verbatim>\<open>strlen\<close> returns a
  \<^verbatim>\<open>size_t\<close>, so the subtraction and the comparison are unsigned: \<open>bits\<close> is the width
  of \<^verbatim>\<open>size_t\<close> and of \<^verbatim>\<open>int\<close> (16 on AVR boards, 32 on ARM and ESP boards), and
  \<^verbatim>\<open>i++\<close> beyond \<^verbatim>\<open>INT_MAX\<close> is a fault. \<^verbatim>\<open>strlen\<close> is evaluated before each round.
\<close>

definition loop_cond :: "nat \<Rightarrow> nat \<Rightarrow> nat \<Rightarrow> bool" where
  "loop_cond bits i n \<longleftrightarrow> i mod 2 ^ bits < (n + 2 ^ bits - 1) mod 2 ^ bits"

function toString_loop ::
  "nat \<Rightarrow> DateTime \<Rightarrow> nat \<Rightarrow> buffer_state \<Rightarrow> (fault \<times> buffer_state) + buffer_state" where
  "toString_loop bits dt i s =
     (case strlen (fst s) of
        None \<Rightarrow> Inl (NoTerminator, s)
      | Some n \<Rightarrow>
          if loop_cond bits i n then
            (case toString_body dt i s of
               Inl e \<Rightarrow> Inl e
             | Inr s' \<Rightarrow>
                 if 2 ^ (bits - 1) \<le> Suc i then Inl (IntOverflow, s')
                 else toString_loop bits dt (Suc i) s')
          else Inr s)"
  by pat_completeness auto
termination
proof (relation "measure (\<lambda>(bits, dt, i, s). length (fst s) - i)")
  show "wf (measure (\<lambda>(bits, dt, i, s). length (fst s) - i))" by simp
next
  fix bits :: nat and dt :: DateTime and i :: nat and s s' :: buffer_state and n :: nat
  assume body: "toString_body dt i s = Inr s'"
  have rd: "length (fst t') = length (fst t)" if "buf_read k t = Inr (x, t')" for k t x t'
    using that by (auto simp: buf_read_def split: if_splits)
  have wr: "length (fst t') = length (fst t)" if "buf_write k c t = Inr t'" for k c t t'
    using that by (auto simp: buf_write_def split: if_splits)
  have ex: "length (fst t') = length (fst t)" if "expect k cs t = Inr (b, t')" for k cs t b t'
    using that
  proof (induction k cs t rule: expect.induct)
    case (1 i s)
    then show ?case by simp
  next
    case (2 i c cs s)
    from "2.prems" obtain x s1 where r: "buf_read i s = Inr (x, s1)"
      by (auto split: sum.splits)
    have l: "length (fst s1) = length (fst s)" using rd [OF r] .
    show ?case
    proof (cases "x = c")
      case True
      then have "expect (Suc i) cs s1 = Inr (b, t')" using "2.prems" r by simp
      then have "length (fst t') = length (fst s1)" by (rule "2.IH" [OF r refl True])
      then show ?thesis using l by simp
    next
      case False
      then have "t' = s1" using "2.prems" r by simp
      then show ?thesis using l by simp
    qed
  qed
  have st: "length (fst t') = length (fst t)" if "store_at k cs t = Inr t'" for k cs t t'
    using that
  proof (induction k cs t rule: store_at.induct)
    case (1 i s)
    then show ?case by simp
  next
    case (2 i c cs s)
    from "2.prems" obtain s1 where w: "buf_write i c s = Inr s1"
      by (auto split: sum.splits)
    then have "store_at (Suc i) cs s1 = Inr t'" using "2.prems" by simp
    then have "length (fst t') = length (fst s1)" by (rule "2.IH" [OF w])
    then show ?case using wr [OF w] by simp
  qed
  have cp: "length (fst t') = length (fst t)" if "copy_pgm tbl p k m t = Inr t'" for tbl p k m t t'
    using that
  proof (induction tbl p k m t rule: copy_pgm.induct)
    case (1 tbl p i s)
    then show ?case by simp
  next
    case (2 tbl p i n s)
    from "2.prems" obtain c where c: "pgm_read_string tbl p = Some c"
      by (auto split: option.splits)
    from "2.prems" c obtain s1 where w: "buf_write i c s = Inr s1"
      by (auto split: sum.splits)
    then have "copy_pgm tbl (p + 1) (Suc i) n s1 = Inr t'" using "2.prems" c by simp
    then have "length (fst t') = length (fst s1)" by (rule "2.IH" [OF c w])
    then show ?case using wr [OF w] by simp
  qed
  have at: "\<exists>x. r = Inr x \<and> f x = Inr y" if "and_then r f = Inr y"
    for r :: "(fault \<times> buffer_state) + 'x" and f :: "'x \<Rightarrow> (fault \<times> buffer_state) + 'y" and y
    using that unfolding and_then_def by (cases r) simp_all
  have nu: "length (fst t') = length (fst t)" if h: "subst_numeric c ds k t = Inr t'" for c ds k t t'
  proof -
    obtain hit t1 where e: "expect k [c, c] t = Inr (hit, t1)"
      and r: "(if hit then store_at k ds t1 else Inr t1) = Inr t'"
      using at [OF h [unfolded subst_numeric_def]] by auto
    have "length (fst t') = length (fst t1)"
      using r st [of k ds t1 t'] by (cases hit) simp_all
    then show ?thesis using ex [OF e] by simp
  qed
  have first: "i < length (fst s)" if h: "subst_numeric c ds i s = Inr t'" for c ds t'
  proof -
    obtain hit t1 where e: "expect i [c, c] s = Inr (hit, t1)"
      using at [OF h [unfolded subst_numeric_def]] by auto
    then show ?thesis
      by (cases "i < length (fst s)") (simp_all add: buf_read_def)
  qed
  have dy: "length (fst t') = length (fst t)" if h: "subst_day dt k t = Inr t'" for k t t'
  proof -
    obtain hit t1 where e: "expect k ''DDD'' t = Inr (hit, t1)"
      and r: "(if hit then
         (case dayOfTheWeek dt of
            None \<Rightarrow> Inl (TableFault, t1)
          | Some dow \<Rightarrow> copy_pgm day_names (3 * int (unat dow)) k 3 t1)
       else subst_numeric CHR ''D'' (two_digits (dt_d dt)) k t1) = Inr t'"
      using at [OF h [unfolded subst_day_def]] by auto
    have "length (fst t') = length (fst t1)"
    proof (cases hit)
      case True
      then obtain p where "copy_pgm day_names p k 3 t1 = Inr t'"
        using r by (auto split: option.splits)
      then show ?thesis by (rule cp)
    next
      case False
      then show ?thesis using r nu by simp
    qed
    then show ?thesis using ex [OF e] by simp
  qed
  have mo: "length (fst t') = length (fst t)" if h: "subst_month dt k t = Inr t'" for k t t'
  proof -
    obtain hit t1 where e: "expect k ''MMM'' t = Inr (hit, t1)"
      and r: "(if hit then copy_pgm month_names (3 * (int (unat (dt_m dt)) - 1)) k 3 t1
       else subst_numeric CHR ''M'' (two_digits (dt_m dt)) k t1) = Inr t'"
      using at [OF h [unfolded subst_month_def]] by auto
    have "length (fst t') = length (fst t1)"
      using r cp nu by (cases hit) simp_all
    then show ?thesis using ex [OF e] by simp
  qed
  have yr: "length (fst t') = length (fst t)" if h: "subst_year dt k t = Inr t'" for k t t'
  proof -
    obtain hit t1 where e: "expect k ''YYYY'' t = Inr (hit, t1)"
      and r: "(if hit then store_at k (''20'' @ year_digits (dt_yOff dt)) t1
       else subst_numeric CHR ''Y'' (year_digits (dt_yOff dt)) k t1) = Inr t'"
      using at [OF h [unfolded subst_year_def]] by auto
    have "length (fst t') = length (fst t1)"
    proof (cases hit)
      case True
      then have "store_at k (''20'' @ year_digits (dt_yOff dt)) t1 = Inr t'"
        using r by (simp only: if_True)
      then show ?thesis by (rule st)
    next
      case False
      then have "subst_numeric CHR ''Y'' (year_digits (dt_yOff dt)) k t1 = Inr t'"
        using r by (simp only: if_False)
      then show ?thesis by (rule nu)
    qed
    then show ?thesis using ex [OF e] by simp
  qed
  obtain s1 s2 s3 s4 s5 where steps:
    "subst_numeric CHR ''h'' (two_digits (dt_hh dt)) i s = Inr s1"
    "subst_numeric CHR ''m'' (two_digits (dt_mm dt)) i s1 = Inr s2"
    "subst_numeric CHR ''s'' (two_digits (dt_ss dt)) i s2 = Inr s3"
    "subst_day dt i s3 = Inr s4"
    "subst_month dt i s4 = Inr s5"
    "subst_year dt i s5 = Inr s'"
    using body unfolding toString_body_def and_then_def by (auto split: sum.splits)
  have "length (fst s') = length (fst s)"
    using nu [OF steps(1)] nu [OF steps(2)] nu [OF steps(3)] dy [OF steps(4)] mo [OF steps(5)]
      yr [OF steps(6)] by simp
  moreover have "i < length (fst s)" using first [OF steps(1)] .
  ultimately show "((bits, dt, Suc i, s'), (bits, dt, i, s)) \<in> measure (\<lambda>(bits, dt, i, s). length (fst s) - i)"
    by simp
qed

definition toString :: "nat \<Rightarrow> DateTime \<Rightarrow> string \<Rightarrow> (fault \<times> buffer_state) + buffer_state" where
  "toString bits dt buffer = toString_loop bits dt 0 (buffer, [])"

text \<open>
  The index of an access, and the state of a run that has stayed inside a string of
  length \<open>n\<close>: the terminator is still the first NUL, at index \<open>n\<close>, and no index
  beyond it was read or written.
\<close>

fun access_index :: "access \<Rightarrow> nat" where
  "access_index (Read k) = k"
| "access_index (Write k) = k"

definition within_string :: "nat \<Rightarrow> buffer_state \<Rightarrow> bool" where
  "within_string n s \<longleftrightarrow> strlen (fst s) = Some n \<and> list_all (\<lambda>a. access_index a \<le> n) (snd s)"

section \<open>BCD codec\<close>

text \<open>
  \<^verbatim>\<open>static uint8_t bcd2bin (uint8_t val) { return val - 6 * (val >> 4); }\<close>
  \<^verbatim>\<open>static uint8_t bin2bcd (uint8_t val) { return val + 6 * (val / 10); }\<close>
  The C expressions are evaluated in \<^verbatim>\<open>int\<close> and truncated to \<^verbatim>\<open>uint8_t\<close> on return,
  which is arithmetic modulo 256: the arithmetic of \<open>8 word\<close>.
\<close>

definition bcd2bin :: "8 word \<Rightarrow> 8 word" where
  "bcd2bin val = val - 6 * (drop_bit 4 val)"

definition bin2bcd :: "8 word \<Rightarrow> 8 word" where
  "bin2bcd val = val + 6 * (val div 10)"

section \<open>The bus\<close>

text \<open>
  The driver talks to the chip through the \<^verbatim>\<open>Wire\<close> object of the platform, which is
  not part of the library. It is modelled as a register-file device behind the calls
  the driver makes: \<^verbatim>\<open>beginTransmission\<close> opens a transmit buffer, \<^verbatim>\<open>write\<close> queues a
  byte, \<^verbatim>\<open>endTransmission\<close> sends the buffer (the first byte sets the chip's register
  pointer, the others are stored from there on, the pointer moving on by one each time),
  \<^verbatim>\<open>requestFrom\<close> fetches bytes from the register pointer on, and \<^verbatim>\<open>read\<close> hands
  them out one by one (\<open>0xFF\<close>, the truncation of \<open>-1\<close>, when none is left). Every
  transaction is recorded in \<open>bus_log\<close>. The library never looks at the status that
  \<^verbatim>\<open>endTransmission\<close> and \<^verbatim>\<open>requestFrom\<close> return, so the model leaves it out.
\<close>

datatype bus_event = Transmit int "8 word list" | Request int nat

record TwoWire =
  regs :: "8 word \<Rightarrow> 8 word"
  reg_ptr :: "8 word"
  tx_address :: int
  tx_buffer :: "8 word list"
  rx_buffer :: "8 word list"
  bus_log :: "bus_event list"

fun store_bytes :: "8 word \<Rightarrow> 8 word list \<Rightarrow> (8 word \<Rightarrow> 8 word) \<Rightarrow> (8 word \<Rightarrow> 8 word)" where
  "store_bytes p [] r = r"
| "store_bytes p (b # bs) r = store_bytes (p + 1) bs (r(p := b))"

fun load_bytes :: "8 word \<Rightarrow> nat \<Rightarrow> (8 word \<Rightarrow> 8 word) \<Rightarrow> 8 word list" where
  "load_bytes p 0 r = []"
| "load_bytes p (Suc n) r = r p # load_bytes (p + 1) n r"

definition Wire_beginTransmission :: "int \<Rightarrow> TwoWire \<Rightarrow> TwoWire" where
  "Wire_beginTransmission address w = w\<lparr>tx_address := address, tx_buffer := []\<rparr>"

definition Wire_write :: "8 word \<Rightarrow> TwoWire \<Rightarrow> TwoWire" where
  "Wire_write b w = w\<lparr>tx_buffer := tx_buffer w @ [b]\<rparr>"

definition Wire_endTransmission :: "TwoWire \<Rightarrow> TwoWire" where
  "Wire_endTransmission w =
     (case tx_buffer w of
        [] \<Rightarrow> w\<lparr>bus_log := bus_log w @ [Transmit (tx_address w) []]\<rparr>
      | p # bs \<Rightarrow>
          w\<lparr>regs := store_bytes p bs (regs w),
            reg_ptr := p + of_nat (length bs),
            tx_buffer := [],
            bus_log := bus_log w @ [Transmit (tx_address w) (p # bs)]\<rparr>)"

definition Wire_requestFrom :: "int \<Rightarrow> nat \<Rightarrow> TwoWire \<Rightarrow> TwoWire" where
  "Wire_requestFrom address n w =
     w\<lparr>rx_buffer := load_bytes (reg_ptr w) n (regs w),
       reg_ptr := reg_ptr w + of_nat n,
       bus_log := bus_log w @ [Request address n]\<rparr>"

definition Wire_read :: "TwoWire \<Rightarrow> 8 word \<times> TwoWire" where
  "Wire_read w =
     (case rx_buffer w of
        [] \<Rightarrow> (0xFF, w)
      | b # bs \<Rightarrow> (b, w\<lparr>rx_buffer := bs\<rparr>))"

text \<open>A bus at rest in front of a chip whose registers hold \<open>r\<close>.\<close>

definition idle_bus :: "(8 word \<Rightarrow> 8 word) \<Rightarrow> TwoWire" where
  "idle_bus r =
     \<lparr>regs = r, reg_ptr = 0, tx_address = 0, tx_buffer = [], rx_buffer = [], bus_log = []\<rparr>"

section \<open>The device session (class uRTCLib)\<close>

text \<open>The constants of \<^verbatim>\<open>uRTCLib.h\<close>.\<close>

definition URTCLIB_ADDRESS :: int where
  "URTCLIB_ADDRESS = 0x68"

definition URTCLIB_ALARM_TYPE_1_NONE :: "8 word" where
  "URTCLIB_ALARM_TYPE_1_NONE = 0b00000000"

definition URTCLIB_ALARM_TYPE_1_ALL_S :: "8 word" where
  "URTCLIB_ALARM_TYPE_1_ALL_S = 0b00101111"

definition URTCLIB_ALARM_TYPE_1_FIXED_S :: "8 word" where
  "URTCLIB_ALARM_TYPE_1_FIXED_S = 0b00101110"

definition URTCLIB_ALARM_TYPE_1_FIXED_MS :: "8 word" where
  "URTCLIB_ALARM_TYPE_1_FIXED_MS = 0b00101100"

definition URTCLIB_ALARM_TYPE_1_FIXED_HMS :: "8 word" where
  "URTCLIB_ALARM_TYPE_1_FIXED_HMS = 0b00101000"

definition URTCLIB_ALARM_TYPE_1_FIXED_DHMS :: "8 word" where
  "URTCLIB_ALARM_TYPE_1_FIXED_DHMS = 0b00100000"

definition URTCLIB_ALARM_TYPE_1_FIXED_DOWHMS :: "8 word" where
  "URTCLIB_ALARM_TYPE_1_FIXED_DOWHMS = 0b00110000"

definition URTCLIB_ALARM_TYPE_2_NONE :: "8 word" where
  "URTCLIB_ALARM_TYPE_2_NONE = 0b10000000"

definition URTCLIB_ALARM_TYPE_2_ALL_M :: "8 word" where
  "URTCLIB_ALARM_TYPE_2_ALL_M = 0b10101110"

definition URTCLIB_ALARM_TYPE_2_FIXED_M :: "8 word" where
  "URTCLIB_ALARM_TYPE_2_FIXED_M = 0b10101100"

definition URTCLIB_ALARM_TYPE_2_FIXED_HM :: "8 word" where
  "URTCLIB_ALARM_TYPE_2_FIXED_HM = 0b10101000"

definition URTCLIB_ALARM_TYPE_2_FIXED_DHM :: "8 word" where
  "URTCLIB_ALARM_TYPE_2_FIXED_DHM = 0b10100000"

definition URTCLIB_ALARM_TYPE_2_FIXED_DOWHM :: "8 word" where
  "URTCLIB_ALARM_TYPE_2_FIXED_DOWHM = 0b10110000"

definition URTCLIB_ALARM_1 :: "8 word" where
  "URTCLIB_ALARM_1 = URTCLIB_ALARM_TYPE_1_NONE"

definition URTCLIB_ALARM_2 :: "8 word" where
  "URTCLIB_ALARM_2 = URTCLIB_ALARM_TYPE_2_NONE"

definition URTCLIB_SQWG_OFF_0 :: "8 word" where
  "URTCLIB_SQWG_OFF_0 = 0b11111111"

definition URTCLIB_SQWG_OFF_1 :: "8 word" where
  "URTCLIB_SQWG_OFF_1 = 0b11111110"

definition URTCLIB_SQWG_1H :: "8 word" where
  "URTCLIB_SQWG_1H = 0b00000000"

definition URTCLIB_SQWG_1024H :: "8 word" where
  "URTCLIB_SQWG_1024H = 0b00001000"

definition URTCLIB_SQWG_4096H :: "8 word" where
  "URTCLIB_SQWG_4096H = 0b00010000"

definition URTCLIB_SQWG_8192H :: "8 word" where
  "URTCLIB_SQWG_8192H = 0b00011000"

definition URTCLIB_SQWG_32768H :: "8 word" where
  "URTCLIB_SQWG_32768H = 0b00000011"

text \<open>
  The private members of \<^verbatim>\<open>class uRTCLib\<close> (the device mirror) with the prefix \<open>m_\<close>
  for the leading underscore of the source, and their initial values.
\<close>

record uRTCLib =
  m_rtc_address :: int
  m_second :: "8 word"
  m_minute :: "8 word"
  m_hour :: "8 word"
  m_day :: "8 word"
  m_month :: "8 word"
  m_year :: "8 word"
  m_dayOfWeek :: "8 word"
  m_temp :: "16 word"
  m_a1_mode :: "8 word"
  m_a1_second :: "8 word"
  m_a1_minute :: "8 word"
  m_a1_hour :: "8 word"
  m_a1_day_dow :: "8 word"
  m_a2_mode :: "8 word"
  m_a2_minute :: "8 word"
  m_a2_hour :: "8 word"
  m_a2_day_dow :: "8 word"
  m_sqwg_mode :: "8 word"

definition uRTCLib_new :: uRTCLib where
  "uRTCLib_new =
     \<lparr>m_rtc_address = URTCLIB_ADDRESS,
      m_second = 0, m_minute = 0, m_hour = 0, m_day = 0, m_month = 0, m_year = 0,
      m_dayOfWeek = 0, m_temp = 9999,
      m_a1_mode = URTCLIB_ALARM_TYPE_1_NONE,
      m_a1_second = 0, m_a1_minute = 0, m_a1_hour = 0, m_a1_day_dow = 0,
      m_a2_mode = URTCLIB_ALARM_TYPE_2_NONE,
      m_a2_minute = 0, m_a2_hour = 0, m_a2_day_dow = 0,
      m_sqwg_mode = URTCLIB_SQWG_OFF_1\<rparr>"

text \<open>
  \<^verbatim>\<open>DateTime uRTCLib::now()\<close>: one write of the register address 0, one request for
  seven bytes, and the seven reads. The methods return their result, the object and
  the bus.
\<close>

definition now :: "uRTCLib \<Rightarrow> TwoWire \<Rightarrow> DateTime \<times> uRTCLib \<times> TwoWire" where
  "now rtc w0 =
     (let w1 = Wire_beginTransmission (m_rtc_address rtc) w0;
          w2 = Wire_write 0 w1;
          w3 = Wire_endTransmission w2;
          w4 = Wire_requestFrom (m_rtc_address rtc) 7 w3;
          (b0, w5) = Wire_read w4;
          ss = bcd2bin (b0 AND 0x7F);
          (b1, w6) = Wire_read w5;
          mm = bcd2bin b1;
          (b2, w7) = Wire_read w6;
          hh = bcd2bin b2;
          (b3, w8) = Wire_read w7;
          (b4, w9) = Wire_read w8;
          d = bcd2bin b4;
          (b5, w10) = Wire_read w9;
          m = bcd2bin b5;
          (b6, w11) = Wire_read w10;
          y = (ucast (bcd2bin b6) + 2000 :: 16 word)
      in (DateTime_fields y m d hh mm ss, rtc, w11))"

text \<open>The accessors \<^verbatim>\<open>uRTCLib::second()\<close> to \<^verbatim>\<open>uRTCLib::dayOfWeek()\<close>.\<close>

definition uRTCLib_second :: "uRTCLib \<Rightarrow> 8 word" where
  "uRTCLib_second rtc = m_second rtc"

definition uRTCLib_minute :: "uRTCLib \<Rightarrow> 8 word" where
  "uRTCLib_minute rtc = m_minute rtc"

definition uRTCLib_hour :: "uRTCLib \<Rightarrow> 8 word" where
  "uRTCLib_hour rtc = m_hour rtc"

definition uRTCLib_day :: "uRTCLib \<Rightarrow> 8 word" where
  "uRTCLib_day rtc = m_day rtc"

definition uRTCLib_month :: "uRTCLib \<Rightarrow> 8 word" where
  "uRTCLib_month rtc = m_month rtc"

definition uRTCLib_year :: "uRTCLib \<Rightarrow> 8 word" where
  "uRTCLib_year rtc = m_year rtc"

definition uRTCLib_dayOfWeek :: "uRTCLib \<Rightarrow> 8 word" where
  "uRTCLib_dayOfWeek rtc = m_dayOfWeek rtc"

text \<open>
  \<^verbatim>\<open>bool uRTCLib::alarmSet(type, second, minute, hour, day_dow)\<close>. The
  \<^verbatim>\<open>switch (type & 0b10000000)\<close> has the cases \<open>0b00000000\<close> and \<open>0b10000000\<close>.
\<close>

definition alarmSet ::
  "8 word \<Rightarrow> 8 word \<Rightarrow> 8 word \<Rightarrow> 8 word \<Rightarrow> 8 word \<Rightarrow> uRTCLib \<Rightarrow> TwoWire
     \<Rightarrow> bool \<times> uRTCLib \<times> TwoWire" where
  "alarmSet type second minute hour day_dow rtc w0 =
     (if type = URTCLIB_ALARM_TYPE_1_NONE then
        (let w1 = Wire_beginTransmission (m_rtc_address rtc) w0;
             w2 = Wire_write 0x0E w1;
             w3 = Wire_endTransmission w2;
             w4 = Wire_requestFrom (m_rtc_address rtc) 1 w3;
             (status, w5) = Wire_read w4;
             status' = status AND 0b11111110;
             w6 = Wire_beginTransmission (m_rtc_address rtc) w5;
             w7 = Wire_write 0x0E w6;
             w8 = Wire_write status' w7;
             w9 = Wire_endTransmission w8
         in (True, rtc\<lparr>m_a1_mode := type\<rparr>, w9))
      else if type = URTCLIB_ALARM_TYPE_2_NONE then
        (let w1 = Wire_beginTransmission (m_rtc_address rtc) w0;
             w2 = Wire_write 0x0E w1;
             w3 = Wire_endTransmission w2;
             w4 = Wire_requestFrom (m_rtc_address rtc) 1 w3;
             (status, w5) = Wire_read w4;
             status' = status AND 0b11111101;
             w6 = Wire_beginTransmission (m_rtc_address rtc) w5;
             w7 = Wire_write 0x0E w6;
             w8 = Wire_write status' w7;
             w9 = Wire_endTransmission w8
         in (True, rtc\<lparr>m_a2_mode := type\<rparr>, w9))
      else if type AND 0b10000000 = 0b00000000 then
        (let w1 = Wire_beginTransmission (m_rtc_address rtc) w0;
             w2 = Wire_write 0x07 w1;
             w3 = Wire_write ((bin2bcd second AND 0b01111111) OR push_bit 7 (type AND 0b00000001)) w2;
             w4 = Wire_write ((bin2bcd minute AND 0b01111111) OR push_bit 6 (type AND 0b00000010)) w3;
             w5 = Wire_write ((bin2bcd hour AND 0b00111111) OR push_bit 5 (type AND 0b00000100)) w4;
             w6 = Wire_write ((bin2bcd day_dow AND 0b00111111) OR push_bit 4 (type AND 0b00001000)
                                OR push_bit 2 (type AND 0b00010000)) w5;
             w7 = Wire_endTransmission w6;
             w8 = Wire_beginTransmission (m_rtc_address rtc) w7;
             w9 = Wire_write 0x0E w8;
             w10 = Wire_endTransmission w9;
             w11 = Wire_requestFrom (m_rtc_address rtc) 1 w10;
             (status, w12) = Wire_read w11;
             status' = status OR 0b00000101;
             w13 = Wire_beginTransmission (m_rtc_address rtc) w12;
             w14 = Wire_write 0x0E w13;
             w15 = Wire_write status' w14;
             w16 = Wire_endTransmission w15
         in (True,
             rtc\<lparr>m_a1_mode := type, m_a1_second := second, m_a1_minute := minute,
                 m_a1_hour := hour, m_a1_day_dow := day_dow, m_sqwg_mode := URTCLIB_SQWG_OFF_1\<rparr>,
             w16))
      else if type AND 0b10000000 = 0b10000000 then
        (let w1 = Wire_beginTransmission (m_rtc_address rtc) w0;
             w2 = Wire_write 0x0B w1;
             w3 = Wire_write ((bin2bcd minute AND 0b01111111) OR push_bit 6 (type AND 0b00000010)) w2;
             w4 = Wire_write ((bin2bcd hour AND 0b00111111) OR push_bit 5 (type AND 0b00000100)) w3;
             w5 = Wire_write ((bin2bcd day_dow AND 0b00111111) OR push_bit 4 (type AND 0b00001000)
                                OR push_bit 2 (type AND 0b00010000)) w4;
             w6 = Wire_endTransmission w5;
             w7 = Wire_beginTransmission (m_rtc_address rtc) w6;
             w8 = Wire_write 0x0E w7;
             w9 = Wire_endTransmission w8;
             w10 = Wire_requestFrom (m_rtc_address rtc) 1 w9;
             (status, w11) = Wire_read w10;
             status' = status OR 0b00000110;
             w12 = Wire_beginTransmission (m_rtc_address rtc) w11;
             w13 = Wire_write 0x0E w12;
             w14 = Wire_write status' w13;
             w15 = Wire_endTransmission w14
         in (True,
             rtc\<lparr>m_a2_mode := type, m_a2_minute := minute, m_a2_hour := hour,
                 m_a2_day_dow := day_dow, m_sqwg_mode := URTCLIB_SQWG_OFF_1\<rparr>,
             w15))
      else (False, rtc, w0))"

text \<open>
  \<^verbatim>\<open>bool uRTCLib::alarmDisable(const uint8_t alarm)\<close>. The \<^verbatim>\<open>switch\<close> chooses
  \<^verbatim>\<open>mask\<close>; the body then runs \<^verbatim>\<open>status &= 0b11111110;\<close> and
  \<^verbatim>\<open>_a1_mode = URTCLIB_ALARM_TYPE_1_NONE;\<close> whichever alarm was named.
\<close>

definition alarmDisable :: "8 word \<Rightarrow> uRTCLib \<Rightarrow> TwoWire \<Rightarrow> bool \<times> uRTCLib \<times> TwoWire" where
  "alarmDisable alarm rtc w0 =
     (let mask = (if alarm = URTCLIB_ALARM_1 then 0b11111110
                  else if alarm = URTCLIB_ALARM_2 then 0b11111101
                  else (0 :: 8 word))
      in if mask \<noteq> 0 then
           (let w1 = Wire_beginTransmission (m_rtc_address rtc) w0;
                w2 = Wire_write 0x0E w1;
                w3 = Wire_endTransmission w2;
                w4 = Wire_requestFrom (m_rtc_address rtc) 1 w3;
                (status, w5) = Wire_read w4;
                status' = status AND 0b11111110;
                w6 = Wire_beginTransmission (m_rtc_address rtc) w5;
                w7 = Wire_write 0x0E w6;
                w8 = Wire_write status' w7;
                w9 = Wire_endTransmission w8
            in (True, rtc\<lparr>m_a1_mode := URTCLIB_ALARM_TYPE_1_NONE\<rparr>, w9))
         else (False, rtc, w0))"

definition alarmMode :: "8 word \<Rightarrow> uRTCLib \<Rightarrow> 8 word" where
  "alarmMode alarm rtc =
     (if alarm = URTCLIB_ALARM_1 then m_a1_mode rtc
      else if alarm = URTCLIB_ALARM_2 then m_a2_mode rtc
      else 0b11111111)"

text \<open>
  \<^verbatim>\<open>bool uRTCLib::sqwgSetMode(const uint8_t mode)\<close>. \<open>sqwg_masks\<close> is its
  \<^verbatim>\<open>switch (mode)\<close>, which leaves \<^verbatim>\<open>processAnd\<close> and \<^verbatim>\<open>processOr\<close> at zero for a
  mode without a case.
\<close>

definition sqwg_masks :: "8 word \<Rightarrow> 8 word \<times> 8 word" where
  "sqwg_masks mode =
     (if mode = URTCLIB_SQWG_OFF_1 then (0b11111111, 0b00000100)
      else if mode = URTCLIB_SQWG_1H then (0b11100011, 0b00000000)
      else if mode = URTCLIB_SQWG_1024H then (0b11101011, 0b00001000)
      else if mode = URTCLIB_SQWG_4096H then (0b11110011, 0b00010000)
      else if mode = URTCLIB_SQWG_8192H then (0b11111011, 0b00011000)
      else (0b00000000, 0b00000000))"

definition sqwgSetMode :: "8 word \<Rightarrow> uRTCLib \<Rightarrow> TwoWire \<Rightarrow> bool \<times> uRTCLib \<times> TwoWire" where
  "sqwgSetMode mode rtc w0 =
     (let (processAnd, processOr) = sqwg_masks mode
      in if processAnd \<noteq> 0 \<or> processOr \<noteq> 0 then
           (let w1 = Wire_beginTransmission (m_rtc_address rtc) w0;
                w2 = Wire_write 0x0E w1;
                w3 = Wire_endTransmission w2;
                w4 = Wire_requestFrom (m_rtc_address rtc) 1 w3;
                (status, w5) = Wire_read w4;
                status' = (status AND processAnd) OR processOr;
                w6 = Wire_beginTransmission (m_rtc_address rtc) w5;
                w7 = Wire_write 0x0E w6;
                w8 = Wire_write status' w7;
                w9 = Wire_endTransmission w8;
                rtc1 = rtc\<lparr>m_sqwg_mode := mode\<rparr>;
                rtc2 = (if mode = URTCLIB_SQWG_OFF_1 \<or> mode = URTCLIB_SQWG_OFF_0
                        then rtc1\<lparr>m_a1_mode := URTCLIB_ALARM_TYPE_1_NONE,
                                  m_a2_mode := URTCLIB_ALARM_TYPE_2_NONE\<rparr>
                        else rtc1)
            in (True, rtc2, w9))
         else (False, rtc, w0))"

definition sqwgMode :: "uRTCLib \<Rightarrow> 8 word" where
  "sqwgMode rtc = m_sqwg_mode rtc"





subsection \<open>Scenarios\<close>

text \<open>
  An object whose two alarms are armed, a chip whose control register (address
  \<open>0x0E\<close>) holds \<open>c\<close>, and a chip whose time registers hold 2099-12-31 23:59:25 with
  bit 7 of the seconds register set.
\<close>

definition both_armed :: uRTCLib where
  "both_armed =
     uRTCLib_new\<lparr>m_a1_mode := URTCLIB_ALARM_TYPE_1_FIXED_HMS,
                 m_a2_mode := URTCLIB_ALARM_TYPE_2_FIXED_HM\<rparr>"

definition control_bus :: "8 word \<Rightarrow> TwoWire" where
  "control_bus c = idle_bus ((\<lambda>a. 0)(0x0E := c))"

definition clock_bus :: TwoWire where
  "clock_bus =
     idle_bus ((\<lambda>a. 0)(0 := 0xA5, 1 := 0x59, 2 := 0x23, 3 := 0x05, 4 := 0x31, 5 := 0x12, 6 := 0x99))"

declare date2days_loop.simps [simp del]
declare year_loop.simps [simp del]
declare month_loop.simps [simp del]
declare toString_loop.simps [simp del]

section \<open>Properties of the calendar arithmetic\<close>

subsection \<open>Conversions between word sizes\<close>

lemma unat_ucast_8_16: "unat (ucast (w :: 8 word) :: 16 word) = unat w"
proof -
  have "unat w < 2 ^ 8" using unsigned_less [of w, where ?'a = nat] by simp
  then have "unat w < 2 ^ 16" by simp
  then show ?thesis by (simp add: unsigned_ucast_eq take_bit_nat_eq_self)
qed

lemma unat_ucast_16_32: "unat (ucast (w :: 16 word) :: 32 word) = unat w"
proof -
  have "unat w < 2 ^ 16" using unsigned_less [of w, where ?'a = nat] by simp
  then have "unat w < 2 ^ 32" by simp
  then show ?thesis by (simp add: unsigned_ucast_eq take_bit_nat_eq_self)
qed

lemma unat_ucast_16_8: "unat w < 256 \<Longrightarrow> unat (ucast (w :: 16 word) :: 8 word) = unat w"
  by (simp add: unsigned_ucast_eq take_bit_nat_eq_self)

subsection \<open>The year loop\<close>

lemma year_start_Suc: "year_start (Suc y) = year_start y + year_len y"
  unfolding year_start_def year_len_def by presburger

lemma year_start_mono: "a \<le> b \<Longrightarrow> year_start a \<le> year_start b"
  unfolding year_start_def by (simp add: add_le_mono div_le_mono)

lemma unat_leap_flag: "unat (leap_flag yOff) = (if unat yOff mod 4 = 0 then 1 else 0)"
proof -
  have "(yOff mod 4 = 0) = (unat yOff mod 4 = 0)"
    by (simp add: word_unat_eq_iff unat_mod)
  then show ?thesis by (simp add: leap_flag_def)
qed

lemma year_len_flag: "365 + unat (leap_flag yOff) = year_len (unat yOff)"
  by (simp add: unat_leap_flag year_len_def)

text \<open>
  The year loop, started in year \<open>y0\<close> with the days from the start of \<open>y0\<close> to day
  \<open>r\<close> of year \<open>y\<close>, stops in year \<open>y\<close> with \<open>r\<close> days left.
\<close>

lemma year_loop_finds:
  assumes "y0 \<le> y" and "y \<le> 99" and "unat yOff = y0"
    and "unat days = year_start y - year_start y0 + r" and "r < year_len y"
  shows "year_loop yOff days = (of_nat y, leap_flag (of_nat y), of_nat r)"
  using assms
proof (induction "y - y0" arbitrary: y0 yOff days)
  case 0
  then have e: "y0 = y" by simp
  then have d: "unat days = r" using 0 by simp
  have yo: "yOff = of_nat y" using 0(4) e of_nat_unat [of yOff, where ?'a = "8 word"] by simp
  have dd: "days = of_nat r" using d of_nat_unat [of days, where ?'a = "16 word"] by simp
  have "unat days < 365 + unat (leap_flag yOff)"
    using d 0 e by (simp add: year_len_flag)
  then have "year_loop yOff days = (yOff, leap_flag yOff, days)"
    by (subst year_loop.simps) simp
  then show ?case using yo dd by simp
next
  case (Suc n)
  then have lt: "Suc y0 \<le> y" by simp
  have ge: "year_start y0 + year_len y0 \<le> year_start y"
    using year_start_mono [OF lt] by (simp add: year_start_Suc)
  have big: "\<not> unat days < 365 + unat (leap_flag yOff)"
    using Suc.prems ge by (simp add: year_len_flag)
  have l: "unat (365 + ucast (leap_flag yOff) :: 16 word) = year_len y0"
    using Suc.prems by (simp add: leap_flag_def year_len_def word_unat_eq_iff unat_mod)
  then have "365 + ucast (leap_flag yOff) \<le> days"
    using big Suc.prems by (simp add: word_le_nat_alt year_len_flag)
  then have d': "unat (days - (365 + ucast (leap_flag yOff))) = year_start y - year_start (Suc y0) + r"
    using l Suc.prems ge by (simp add: unat_sub year_start_Suc)
  have y': "unat (yOff + 1) = Suc y0"
    using Suc.prems lt by (simp add: unat_word_ariths)
  have "year_loop (yOff + 1) (days - (365 + ucast (leap_flag yOff))) = (of_nat y, leap_flag (of_nat y), of_nat r)"
    using Suc.hyps(1) [OF _ lt Suc.prems(2) y' d' Suc.prems(5)] Suc.hyps(2) by simp
  then show ?case using big by (subst year_loop.simps) simp
qed

subsection \<open>The month loop\<close>

lemma pgm_read_daysInMonth_eq:
  assumes "1 \<le> k" and "k \<le> 11"
  shows "pgm_read_daysInMonth (k - 1) = Some (of_nat (days_in_month False k))"
proof -
  have "k = 1 \<or> k = 2 \<or> k = 3 \<or> k = 4 \<or> k = 5 \<or> k = 6 \<or> k = 7 \<or> k = 8 \<or> k = 9 \<or> k = 10 \<or> k = 11"
    using assms by arith
  then show ?thesis
    by (elim disjE) (simp_all add: pgm_read_daysInMonth_def daysInMonth_def days_in_month_def)
qed

lemma days_in_month_bounds: "28 \<le> days_in_month y k \<and> days_in_month y k \<le> 31"
  by (simp add: days_in_month_def)

lemma days_in_month_leap:
  "days_in_month y k = days_in_month False k + (if y \<and> k = 2 then 1 else 0)"
  by (simp add: days_in_month_def)

lemma cum_days_step: "1 \<le> k \<Longrightarrow> cum_days y k = cum_days y (k - 1) + days_in_month y k"
  by (cases k) simp_all

lemma cum_days_mono: "a \<le> b \<Longrightarrow> cum_days y a \<le> cum_days y b"
proof (induction b)
  case 0
  then show ?case by simp
next
  case (Suc b)
  then show ?case by (cases "a = Suc b") auto
qed

lemma month_loop_step:
  assumes "m < 12" and "pgm_read_daysInMonth (unat m - 1) = Some b"
  shows "month_loop leap m days =
     (if unat days < unat (daysPerMonth_of leap m b) then Some (m, days)
      else month_loop leap (m + 1) (days - ucast (daysPerMonth_of leap m b)))"
  using assms by (subst month_loop.simps) simp

lemma month_loop_stop: "\<not> m < 12 \<Longrightarrow> month_loop leap m days = Some (m, days)"
  by (subst month_loop.simps) simp

lemma unat_daysPerMonth:
  fixes m leap :: "8 word"
  assumes k: "1 \<le> k" "k \<le> 11" and m: "unat m = k"
    and leap: "unat leap = (if y then 1 else 0)"
  shows "unat (daysPerMonth_of leap m (of_nat (days_in_month False k))) = days_in_month y k"
proof (cases "y \<and> k = 2")
  case True
  then have "leap \<noteq> 0" and "m = 2"
    using leap m by (auto simp: word_unat_eq_iff)
  then show ?thesis
    using True by (simp add: daysPerMonth_of_def days_in_month_def)
next
  case False
  then have "\<not> (leap \<noteq> 0 \<and> m = 2)"
    using leap m by (auto simp: word_unat_eq_iff)
  then have "daysPerMonth_of leap m (of_nat (days_in_month False k)) = of_nat (days_in_month False k)"
    unfolding daysPerMonth_of_def by simp
  moreover have "days_in_month False k \<le> 31" by (simp add: days_in_month_bounds)
  then have "unat (of_nat (days_in_month False k) :: 8 word) = days_in_month False k"
    by (simp add: unat_of_nat)
  moreover have "days_in_month y k = days_in_month False k"
    using False by (simp add: days_in_month_leap [of y k])
  ultimately show ?thesis by simp
qed

text \<open>
  The month loop, started in month \<open>m0\<close> with the days from the start of \<open>m0\<close> to
  day \<open>r\<close> of month \<open>M\<close>, stops in month \<open>M\<close> with \<open>r\<close> days left.
\<close>

lemma month_loop_finds:
  assumes "m0 \<le> M" and "1 \<le> m0" and "M \<le> 12" and "unat m = m0"
    and "unat days = cum_days y (M - 1) - cum_days y (m0 - 1) + r"
    and "r < days_in_month y M"
    and "unat leap = (if y then 1 else 0)"
  shows "month_loop leap m days = Some (of_nat M, of_nat r)"
  using assms
proof (induction "M - m0" arbitrary: m0 m days)
  case 0
  then have e: "m0 = M" by simp
  then have d: "unat days = r" using 0 by simp
  have mo: "m = of_nat M" using 0(5) e of_nat_unat [of m, where ?'a = "8 word"] by simp
  have dd: "days = of_nat r" using d of_nat_unat [of days, where ?'a = "16 word"] by simp
  show ?case
  proof (cases "M = 12")
    case True
    then have "\<not> m < 12" using 0(5) e by (simp add: word_less_nat_alt)
    then have "month_loop leap m days = Some (m, days)"
      by (rule month_loop_stop)
    then show ?thesis using mo dd by simp
  next
    case False
    then have k: "1 \<le> M" "M \<le> 11" using 0 e by simp_all
    have lt: "m < 12" using k 0(5) e by (simp add: word_less_nat_alt)
    have rd: "pgm_read_daysInMonth (unat m - 1) = Some (of_nat (days_in_month False M))"
      using pgm_read_daysInMonth_eq [OF k] 0(5) e by simp
    have dpm: "unat (daysPerMonth_of leap m (of_nat (days_in_month False M))) = days_in_month y M"
      using k 0(5) e 0(8) by (intro unat_daysPerMonth) simp_all
    have "month_loop leap m days = Some (m, days)"
      using d 0(7) dpm by (simp add: month_loop_step [OF lt rd])
    then show ?thesis using mo dd by simp
  qed
next
  case (Suc n)
  then have lt': "Suc m0 \<le> M" by simp
  then have k: "1 \<le> m0" "m0 \<le> 11" using Suc.prems by simp_all
  have lt: "m < 12" using k Suc.prems(4) by (simp add: word_less_nat_alt)
  have rd: "pgm_read_daysInMonth (unat m - 1) = Some (of_nat (days_in_month False m0))"
    using pgm_read_daysInMonth_eq [OF k] Suc.prems(4) by simp
  define dpm where "dpm = daysPerMonth_of leap m (of_nat (days_in_month False m0))"
  have dpm: "unat dpm = days_in_month y m0"
    unfolding dpm_def using k Suc.prems(4) Suc.prems(7) by (intro unat_daysPerMonth) simp_all
  have "cum_days y m0 \<le> cum_days y (M - 1)"
    using lt' by (intro cum_days_mono) simp
  then have ge: "cum_days y (m0 - 1) + days_in_month y m0 \<le> cum_days y (M - 1)"
    using cum_days_step [OF k(1), of y] by simp
  have big: "\<not> unat days < unat dpm"
    using ge Suc.prems(5) dpm by simp
  have u: "unat (ucast dpm :: 16 word) = days_in_month y m0"
    using dpm by (simp add: unat_ucast_8_16)
  then have "ucast dpm \<le> days"
    using big dpm by (simp add: word_le_nat_alt)
  then have d': "unat (days - ucast dpm) = cum_days y (M - 1) - cum_days y (Suc m0 - 1) + r"
    using u ge Suc.prems(5) cum_days_step [OF k(1), of y] by (simp add: unat_sub)
  have m': "unat (m + 1) = Suc m0"
    using Suc.prems(4) k by (simp add: unat_word_ariths)
  have rec: "month_loop leap (m + 1) (days - ucast dpm) = Some (of_nat M, of_nat r)"
    using Suc.hyps(1) [OF _ lt' _ Suc.prems(3) m' d' Suc.prems(6) Suc.prems(7)] Suc.hyps(2) by simp
  have "month_loop leap m days =
     (if unat days < unat dpm then Some (m, days)
      else month_loop leap (m + 1) (days - ucast dpm))"
    unfolding dpm_def by (rule month_loop_step [OF lt rd])
  then show ?case
    using big rec by simp
qed

subsection \<open>The day number\<close>

lemma date2days_loop_stop: "\<not> i < m \<Longrightarrow> date2days_loop i m days = Some days"
  by (subst date2days_loop.simps) simp

lemma date2days_loop_step:
  assumes "i < m" and "pgm_read_daysInMonth (unat i - 1) = Some b"
  shows "date2days_loop i m days = date2days_loop (i + 1) m (days + ucast b)"
  using assms by (subst date2days_loop.simps) simp

lemma ucast_of_nat_8_16: "k < 256 \<Longrightarrow> (ucast (of_nat k :: 8 word) :: 16 word) = of_nat k"
  by (simp add: word_unat_eq_iff unat_ucast_8_16 unat_of_nat)

lemma date2days_loop_sum:
  assumes "1 \<le> i0" and "i0 \<le> M" and "M \<le> 12" and "unat i = i0" and "unat m = M"
  shows "date2days_loop i m days =
         Some (days + of_nat (cum_days False (M - 1) - cum_days False (i0 - 1)))"
  using assms
proof (induction "M - i0" arbitrary: i0 i days)
  case 0
  then have e: "i0 = M" by simp
  then have "\<not> i < m" using 0 by (simp add: word_less_nat_alt)
  then have "date2days_loop i m days = Some days" by (rule date2days_loop_stop)
  then show ?case using e by simp
next
  case (Suc n)
  then have lt': "Suc i0 \<le> M" by simp
  then have k: "1 \<le> i0" "i0 \<le> 11" using Suc.prems by simp_all
  have lt: "i < m" using lt' Suc.prems by (simp add: word_less_nat_alt)
  define x where "x = days_in_month False i0"
  have xb: "x \<le> 31" unfolding x_def by (simp add: days_in_month_bounds)
  have rd: "pgm_read_daysInMonth (unat i - 1) = Some (of_nat x)"
    unfolding x_def using pgm_read_daysInMonth_eq [OF k] Suc.prems(4) by simp
  have i': "unat (i + 1) = Suc i0"
    using Suc.prems(4) k by (simp add: unat_word_ariths)
  have rec: "date2days_loop (i + 1) m (days + ucast (of_nat x :: 8 word)) =
      Some (days + ucast (of_nat x :: 8 word) + of_nat (cum_days False (M - 1) - cum_days False (Suc i0 - 1)))"
    using Suc.hyps(1) [OF _ _ lt' Suc.prems(3) i' Suc.prems(5)] Suc.hyps(2) by simp
  have "cum_days False i0 \<le> cum_days False (M - 1)"
    using lt' by (intro cum_days_mono) simp
  then have ge: "cum_days False (i0 - 1) + x \<le> cum_days False (M - 1)"
    unfolding x_def using cum_days_step [OF k(1), of False] by simp
  have "x + (cum_days False (M - 1) - cum_days False (Suc i0 - 1)) =
        cum_days False (M - 1) - cum_days False (i0 - 1)"
    using ge cum_days_step [OF k(1), of False] unfolding x_def by simp
  then have "(of_nat x :: 16 word) + of_nat (cum_days False (M - 1) - cum_days False (Suc i0 - 1)) =
        of_nat (cum_days False (M - 1) - cum_days False (i0 - 1))"
    by (metis of_nat_add)
  then have "days + ucast (of_nat x :: 8 word) + of_nat (cum_days False (M - 1) - cum_days False (Suc i0 - 1))
     = days + of_nat (cum_days False (M - 1) - cum_days False (i0 - 1))"
    using xb by (simp add: ucast_of_nat_8_16 add.assoc)
  then show ?case
    using rec by (simp add: date2days_loop_step [OF lt rd])
qed

lemma cum_days_leap: "cum_days L k = cum_days False k + (if L \<and> 2 \<le> k then 1 else 0)"
  by (induction k) (auto simp: days_in_month_def)

lemma year_start_bound: "y \<le> 99 \<Longrightarrow> year_start y \<le> 36160"
  unfolding year_start_def by simp

text \<open>
  For a year up to 2099, a month of 1 to 12 and a day of at least 1, \<^verbatim>\<open>date2days\<close>
  returns the days before the year, plus the days of the year before the month, plus
  the day, minus one.
\<close>

lemma date2days_valid:
  fixes y :: "16 word" and m d :: "8 word"
  assumes y: "unat y \<le> 99" and m: "1 \<le> unat m" "unat m \<le> 12" and d: "1 \<le> unat d"
  shows "date2days y m d =
     Some (of_nat (year_start (unat y) + cum_days (unat y mod 4 = 0) (unat m - 1) + unat d - 1))"
proof -
  define Y where "Y = unat y"
  define M where "M = unat m"
  define D where "D = unat d"
  define c where "c = cum_days False (M - 1)"
  define cL where "cL = cum_days (Y mod 4 = 0) (M - 1)"
  have yw: "y = of_nat Y" unfolding Y_def by simp
  have small: "\<not> 2000 \<le> y" using y by (simp add: word_le_nat_alt)
  have loop: "date2days_loop 1 m (ucast d) = Some (ucast d + of_nat c)"
    using date2days_loop_sum [of 1 M 1 m "ucast d"] m unfolding M_def c_def by simp
  have ud: "(ucast d :: 16 word) = of_nat D" unfolding D_def by simp
  have m2: "(2 < m) = (2 \<le> M - 1)" unfolding M_def by (auto simp: word_less_nat_alt)
  have y4: "(y mod 4 = 0) = (Y mod 4 = 0)"
    unfolding Y_def by (simp add: word_unat_eq_iff unat_mod)
  have cl: "cL = c + (if (Y mod 4 = 0) \<and> 2 \<le> M - 1 then 1 else 0)"
    unfolding cL_def c_def by (rule cum_days_leap)
  have adj: "(if 2 < m \<and> y mod 4 = 0 then ucast d + of_nat c + 1
              else ucast d + of_nat c :: 16 word) = of_nat (D + cL)"
    unfolding cl using m2 y4 ud by (simp add: conj_commute)
  have y3: "unat (y + 3) = Y + 3" using y unfolding Y_def by (simp add: unat_word_ariths)
  have q: "(y + 3) div 4 = of_nat ((Y + 3) div 4)"
    using y3 by (simp add: word_arith_nat_div)
  then have q': "(of_nat Y + 3 :: 16 word) div 4 = of_nat ((Y + 3) div 4)"
    unfolding yw .
  have pos: "1 \<le> D + cL + 365 * Y + (Y + 3) div 4"
    using d unfolding D_def by simp
  have "(of_nat (D + cL) :: 16 word) + 365 * y + (y + 3) div 4 - 1
      = of_nat (D + cL + 365 * Y + (Y + 3) div 4) - 1"
    unfolding yw q' by simp
  also have "\<dots> = of_nat (D + cL + 365 * Y + (Y + 3) div 4 - 1)"
    using pos by (simp add: of_nat_diff)
  also have "D + cL + 365 * Y + (Y + 3) div 4 - 1 = year_start Y + cL + D - 1"
    by (simp add: year_start_def)
  finally have fin: "(of_nat (D + cL) :: 16 word) + 365 * y + (y + 3) div 4 - 1
      = of_nat (year_start Y + cL + D - 1)" .
  have "date2days y m d =
      Some ((if 2 < m \<and> y mod 4 = 0 then ucast d + of_nat c + 1
              else ucast d + of_nat c) + 365 * y + (y + 3) div 4 - 1)"
    unfolding date2days_def Let_def using small loop by (simp split del: if_split)
  then have "date2days y m d = Some (of_nat (year_start Y + cL + D - 1))"
    unfolding adj fin .
  then show ?thesis
    unfolding cL_def Y_def M_def D_def .
qed

subsection \<open>Decoding a Unix time\<close>

lemma cum_days_12: "cum_days L 12 = (if L then 366 else 365)"
  by (simp add: eval_nat_numeral days_in_month_def)

lemma cum_days_in_year:
  assumes "1 \<le> M" and "M \<le> 12" and "1 \<le> D" and "D \<le> days_in_month L M"
  shows "cum_days L (M - 1) + (D - 1) < (if L then 366 else 365)"
proof -
  have "cum_days L (M - 1) + days_in_month L M = cum_days L M"
    using cum_days_step [OF assms(1), of L] by simp
  moreover have "cum_days L M \<le> cum_days L 12"
    using assms(2) by (rule cum_days_mono)
  ultimately show ?thesis using assms(3,4) by (simp add: cum_days_12 split: if_splits)
qed

lemma div_step: "r < b \<Longrightarrow> (q * b + r) div b = (q :: nat)"
  by simp

lemma mod_step: "r < b \<Longrightarrow> (q * b + r) mod b = (r :: nat)"
  by simp

lemma split_seconds:
  fixes N H Mi S X :: nat
  assumes "H \<le> 23" and "Mi \<le> 59" and "S \<le> 59"
    and "X = N * 86400 + H * 3600 + Mi * 60 + S"
  shows "X mod 60 = S" and "X div 60 mod 60 = Mi" and "X div 60 div 60 mod 24 = H"
    and "X div 60 div 60 div 24 = N"
proof -
  have s: "S < 60" and mi: "Mi < 60" and h: "H < 24" using assms by simp_all
  have a: "X = ((N * 24 + H) * 60 + Mi) * 60 + S" unfolding assms(4) by simp
  have d1: "X div 60 = (N * 24 + H) * 60 + Mi" unfolding a by (rule div_step [OF s])
  have d2: "X div 60 div 60 = N * 24 + H" unfolding d1 by (rule div_step [OF mi])
  show "X mod 60 = S" unfolding a by (rule mod_step [OF s])
  show "X div 60 mod 60 = Mi" unfolding d1 by (rule mod_step [OF mi])
  show "X div 60 div 60 mod 24 = H" unfolding d2 by (rule mod_step [OF h])
  show "X div 60 div 60 div 24 = N" unfolding d2 by (rule div_step [OF h])
qed

lemma ucast_eq_of_nat_8: "unat w = k \<Longrightarrow> (ucast (w :: 32 word) :: 8 word) = of_nat k"
  using of_nat_unat [of w, where ?'a = "8 word"] by simp

lemma ucast_eq_of_nat_16: "unat w = k \<Longrightarrow> (ucast (w :: 32 word) :: 16 word) = of_nat k"
  using of_nat_unat [of w, where ?'a = "16 word"] by simp

lemma DateTime_unixtime_fields:
  assumes t: "unat (t0 - SECONDS_FROM_1970_TO_2000) = N * 86400 + H * 3600 + Mi * 60 + S"
    and hms: "H \<le> 23" "Mi \<le> 59" "S \<le> 59"
    and N: "N = year_start Y + cum_days (Y mod 4 = 0) (M - 1) + (D - 1)"
    and Y: "Y \<le> 99" and M: "1 \<le> M" "M \<le> 12"
    and D: "1 \<le> D" "D \<le> days_in_month (Y mod 4 = 0) M"
  shows "DateTime_unixtime t0 =
     Some \<lparr>dt_yOff = of_nat Y, dt_m = of_nat M, dt_d = of_nat D,
           dt_hh = of_nat H, dt_mm = of_nat Mi, dt_ss = of_nat S\<rparr>"
proof -
  define t1 where "t1 = t0 - SECONDS_FROM_1970_TO_2000"
  define L where "L = (Y mod 4 = 0)"
  define r where "r = cum_days L (M - 1) + (D - 1)"
  have u: "unat t1 = N * 86400 + H * 3600 + Mi * 60 + S" using t unfolding t1_def .
  note sp = split_seconds [OF hms u]
  have s: "(ucast (t1 mod 60) :: 8 word) = of_nat S"
    using sp(1) by (intro ucast_eq_of_nat_8) (simp add: unat_mod)
  have mi: "(ucast (t1 div 60 mod 60) :: 8 word) = of_nat Mi"
    using sp(2) by (intro ucast_eq_of_nat_8) (simp add: unat_mod unat_div)
  have h: "(ucast (t1 div 60 div 60 mod 24) :: 8 word) = of_nat H"
    using sp(3) by (intro ucast_eq_of_nat_8) (simp add: unat_mod unat_div)
  have dy: "(ucast (t1 div 60 div 60 div 24) :: 16 word) = of_nat N"
    using sp(4) by (intro ucast_eq_of_nat_16) (simp add: unat_div)
  have rlt: "r < year_len Y"
    unfolding r_def year_len_def L_def using cum_days_in_year [OF M D] by simp
  have rb: "r < 366" using rlt by (simp add: year_len_def split: if_splits)
  have Nb: "N \<le> 36526" using N year_start_bound [OF Y] rb unfolding r_def L_def by simp
  have "unat (of_nat N :: 16 word) = N"
    using Nb by (simp add: unat_of_nat)
  moreover have "N = year_start Y - year_start 0 + r"
    unfolding N r_def L_def by (simp add: year_start_def)
  ultimately have "unat (of_nat N :: 16 word) = year_start Y - year_start 0 + r"
    by simp
  then have yl: "year_loop 0 (of_nat N) = (of_nat Y, leap_flag (of_nat Y), of_nat r)"
    using Y rlt by (intro year_loop_finds [where ?y0.0 = 0]) simp_all
  have lf: "unat (leap_flag (of_nat Y)) = (if L then 1 else 0)"
    using Y unfolding L_def by (simp add: unat_leap_flag unat_of_nat)
  have "unat (of_nat r :: 16 word) = r"
    using rb by (simp add: unat_of_nat)
  moreover have "r = cum_days L (M - 1) - cum_days L (1 - 1) + (D - 1)"
    unfolding r_def by simp
  ultimately have "unat (of_nat r :: 16 word) = cum_days L (M - 1) - cum_days L (1 - 1) + (D - 1)"
    by simp
  then have ml: "month_loop (leap_flag (of_nat Y)) 1 (of_nat r) = Some (of_nat M, of_nat (D - 1))"
    using M D lf by (intro month_loop_finds [where ?m0.0 = 1 and y = L]) (simp_all add: L_def)
  have Db: "D \<le> 31" using D(2) days_in_month_bounds [of "Y mod 4 = 0" M] by simp
  obtain k where k: "D = Suc k" using D(1) by (cases D) auto
  have "(of_nat (D - 1) + 1 :: 16 word) = of_nat D"
    unfolding k by simp
  then have dd: "(ucast (of_nat (D - 1) + 1 :: 16 word) :: 8 word) = of_nat D"
    using Db by (simp add: word_unat_eq_iff unsigned_ucast_eq take_bit_nat_eq_self unat_of_nat)
  show ?thesis
    unfolding DateTime_unixtime_def Let_def t1_def [symmetric] s mi h dy yl
    using ml dd by simp
qed

subsection \<open>Both round trips\<close>

lemma ucast_of_nat_16_32: "k < 65536 \<Longrightarrow> (ucast (of_nat k :: 16 word) :: 32 word) = of_nat k"
  by (simp add: word_unat_eq_iff unat_ucast_16_32 unat_of_nat)

lemma day_number_bound:
  assumes "valid_calendar dt"
  shows "day_number dt \<le> 36525"
proof -
  have "cum_days (unat (dt_yOff dt) mod 4 = 0) (unat (dt_m dt) - 1) + (unat (dt_d dt) - 1) < 366"
    using cum_days_in_year [of "unat (dt_m dt)" "unat (dt_d dt)" "unat (dt_yOff dt) mod 4 = 0"] assms
    by (simp add: valid_calendar_def split: if_splits)
  moreover have "year_start (unat (dt_yOff dt)) \<le> 36160"
    using assms by (intro year_start_bound) (simp add: valid_calendar_def)
  ultimately show ?thesis unfolding day_number_def by simp
qed

lemma time2long_of_nat:
  assumes "N < 65536"
  shows "time2long (of_nat N) h m s + SECONDS_FROM_1970_TO_2000 =
         of_nat (N * 86400 + unat h * 3600 + unat m * 60 + unat s + 946684800)"
proof -
  have e: "N * 86400 + unat h * 3600 + unat m * 60 + unat s + 946684800
      = ((N * 24 + unat h) * 60 + unat m) * 60 + unat s + 946684800"
    by simp
  show ?thesis
    unfolding e time2long_def SECONDS_FROM_1970_TO_2000_def ucast_of_nat_16_32 [OF assms]
    by (simp only: of_nat_add of_nat_mult of_nat_numeral of_nat_unat)
qed

lemma unixtime_valid:
  assumes v: "valid_calendar dt"
  shows "unixtime dt = Some (of_nat (unix_seconds dt))"
proof -
  have y: "unat (ucast (dt_yOff dt) :: 16 word) = unat (dt_yOff dt)"
    by (rule unat_ucast_8_16)
  have "date2days (ucast (dt_yOff dt)) (dt_m dt) (dt_d dt) =
      Some (of_nat (year_start (unat (dt_yOff dt))
         + cum_days (unat (dt_yOff dt) mod 4 = 0) (unat (dt_m dt) - 1) + unat (dt_d dt) - 1))"
    using v date2days_valid [of "ucast (dt_yOff dt)" "dt_m dt" "dt_d dt"]
    unfolding y by (simp add: valid_calendar_def)
  moreover have "year_start (unat (dt_yOff dt))
         + cum_days (unat (dt_yOff dt) mod 4 = 0) (unat (dt_m dt) - 1) + unat (dt_d dt) - 1
       = day_number dt"
    using v unfolding day_number_def valid_calendar_def by simp
  ultimately have d: "date2days (ucast (dt_yOff dt)) (dt_m dt) (dt_d dt) = Some (of_nat (day_number dt))"
    by simp
  have "day_number dt < 65536" using day_number_bound [OF v] by simp
  then show ?thesis
    unfolding unixtime_def d unix_seconds_def by (simp add: time2long_of_nat)
qed

lemma unix_seconds_bound:
  assumes "valid_calendar dt"
  shows "unix_seconds dt < 2 ^ 32"
  using day_number_bound [OF assms] assms unfolding unix_seconds_def valid_calendar_def by simp

text \<open>
  For every valid calendar value of 2000 to 2099, \<^verbatim>\<open>unixtime\<close> returns its number of
  seconds since 1970, and the constructor from that number returns the value.
\<close>

lemma roundtrip_general:
  assumes v: "valid_calendar dt"
  shows "unixtime dt = Some (of_nat (unix_seconds dt))"
    and "DateTime_unixtime (of_nat (unix_seconds dt)) = Some dt"
proof -
  show "unixtime dt = Some (of_nat (unix_seconds dt))" using v by (rule unixtime_valid)
  define X where "X = day_number dt * 86400 + unat (dt_hh dt) * 3600 + unat (dt_mm dt) * 60 + unat (dt_ss dt)"
  have us: "unix_seconds dt = X + 946684800" unfolding unix_seconds_def X_def by simp
  have Xb: "X < 2 ^ 32" using unix_seconds_bound [OF v] us by simp
  have "(of_nat (unix_seconds dt) :: 32 word) - SECONDS_FROM_1970_TO_2000 = of_nat X"
    unfolding us SECONDS_FROM_1970_TO_2000_def by simp
  then have t: "unat ((of_nat (unix_seconds dt) :: 32 word) - SECONDS_FROM_1970_TO_2000) = X"
    using Xb by (simp add: unat_of_nat)
  have "DateTime_unixtime (of_nat (unix_seconds dt)) =
     Some \<lparr>dt_yOff = of_nat (unat (dt_yOff dt)), dt_m = of_nat (unat (dt_m dt)),
           dt_d = of_nat (unat (dt_d dt)), dt_hh = of_nat (unat (dt_hh dt)),
           dt_mm = of_nat (unat (dt_mm dt)), dt_ss = of_nat (unat (dt_ss dt))\<rparr>"
    using v unfolding valid_calendar_def
    by (intro DateTime_unixtime_fields [where N = "day_number dt"])
       (simp_all add: t X_def day_number_def)
  then show "DateTime_unixtime (of_nat (unix_seconds dt)) = Some dt"
    by simp
qed

lemma year_decomp:
  "N < year_start K \<Longrightarrow> \<exists>Y<K. year_start Y \<le> N \<and> N < year_start (Suc Y)"
proof (induction K)
  case 0
  then show ?case by (simp add: year_start_def)
next
  case (Suc K)
  show ?case
  proof (cases "N < year_start K")
    case True
    then obtain Y where "Y < K" "year_start Y \<le> N" "N < year_start (Suc Y)"
      using Suc.IH by blast
    then show ?thesis using less_Suc_eq by blast
  next
    case False
    then show ?thesis using Suc.prems by (intro exI [of _ K]) simp
  qed
qed

lemma month_decomp:
  "r < cum_days L K \<Longrightarrow> \<exists>M. 1 \<le> M \<and> M \<le> K \<and> cum_days L (M - 1) \<le> r \<and> r < cum_days L M"
proof (induction K)
  case 0
  then show ?case by simp
next
  case (Suc K)
  show ?case
  proof (cases "r < cum_days L K")
    case True
    then obtain M where "1 \<le> M" "M \<le> K" "cum_days L (M - 1) \<le> r" "r < cum_days L M"
      using Suc.IH by blast
    then show ?thesis using le_Suc_eq by blast
  next
    case False
    then show ?thesis using Suc.prems by (intro exI [of _ "Suc K"]) simp
  qed
qed

lemma year_start_100: "year_start 100 = 36525"
  by (simp add: year_start_def)

text \<open>
  Every Unix time from 2000-01-01T00:00:00 to 2099-12-31T23:59:59 is the Unix time of a
  valid calendar value.
\<close>

lemma unixtime_onto:
  fixes t :: "32 word"
  assumes lo: "946684800 \<le> t" and hi: "t \<le> 4102444799"
  shows "\<exists>dt. valid_calendar dt \<and> unixtime dt = Some t"
proof -
  define X where "X = unat t - 946684800"
  define S where "S = X mod 60"
  define Mi where "Mi = X div 60 mod 60"
  define H where "H = X div 60 div 60 mod 24"
  define N where "N = X div 60 div 60 div 24"
  have tl: "946684800 \<le> unat t" using lo by (simp add: word_le_nat_alt)
  have th: "unat t \<le> 4102444799" using hi by (simp add: word_le_nat_alt)
  have ut: "unat t = X + 946684800" unfolding X_def using tl by simp
  have Xb: "X < 36525 * 86400" unfolding X_def using th by simp
  have hms: "H \<le> 23" "Mi \<le> 59" "S \<le> 59"
    unfolding H_def Mi_def S_def by simp_all
  have "X = ((N * 24 + H) * 60 + Mi) * 60 + S"
    unfolding N_def H_def Mi_def S_def by simp
  then have Xe: "X = N * 86400 + H * 3600 + Mi * 60 + S" by simp
  have Nb: "N < year_start 100"
    unfolding year_start_100 N_def using Xb by (simp add: div_mult2_eq [symmetric] less_mult_imp_div_less)
  then obtain Y where Y: "Y < 100" "year_start Y \<le> N" "N < year_start (Suc Y)"
    using year_decomp by blast
  define L where "L = (Y mod 4 = 0)"
  define r where "r = N - year_start Y"
  have "r < year_len Y" unfolding r_def using Y by (simp add: year_start_Suc)
  then have "r < cum_days L 12" unfolding L_def year_len_def cum_days_12 by simp
  then obtain M where M: "1 \<le> M" "M \<le> 12" "cum_days L (M - 1) \<le> r" "r < cum_days L M"
    using month_decomp by blast
  define D where "D = r - cum_days L (M - 1) + 1"
  have D: "1 \<le> D" "D \<le> days_in_month L M"
    unfolding D_def using M cum_days_step [OF M(1), of L] by simp_all
  have Db: "D \<le> 31" using D(2) days_in_month_bounds [of L M] by simp
  define dt where "dt = \<lparr>dt_yOff = of_nat Y, dt_m = of_nat M, dt_d = of_nat D,
           dt_hh = of_nat H, dt_mm = of_nat Mi, dt_ss = (of_nat S :: 8 word)\<rparr>"
  have f: "unat (dt_yOff dt) = Y" "unat (dt_m dt) = M" "unat (dt_d dt) = D"
       "unat (dt_hh dt) = H" "unat (dt_mm dt) = Mi" "unat (dt_ss dt) = S"
    unfolding dt_def using Y(1) M(2) Db hms by (simp_all add: unat_of_nat)
  have v: "valid_calendar dt"
    unfolding valid_calendar_def f using Y(1) M D hms by (simp add: L_def)
  have "day_number dt = N"
    unfolding day_number_def f D_def r_def using Y(2) M(3) by (simp add: L_def r_def)
  then have "unix_seconds dt = unat t"
    unfolding unix_seconds_def f ut Xe by simp
  then have "unixtime dt = Some t"
    using unixtime_valid [OF v] by simp
  then show ?thesis using v by blast
qed
subsection \<open>Evaluation at 2024-03-15 13:45:30\<close>

lemma valid_2024_03_15: "valid_calendar (DateTime_fields 2024 3 15 13 45 30)"
  by (simp add: valid_calendar_def DateTime_fields_def days_in_month_def)

lemma unixtime_2024_03_15: "unixtime (DateTime_fields 2024 3 15 13 45 30) = Some 1710510330"
  by (simp add: unixtime_def DateTime_fields_def date2days_def date2days_loop.simps
      pgm_read_daysInMonth_def daysInMonth_def time2long_def SECONDS_FROM_1970_TO_2000_def)

lemma dayOfTheWeek_2024_03_15: "dayOfTheWeek (DateTime_fields 2024 3 15 13 45 30) = Some 5"
  by (simp add: dayOfTheWeek_def DateTime_fields_def date2days_def date2days_loop.simps
      pgm_read_daysInMonth_def daysInMonth_def)

lemma timestamp_2024_03_15:
  "timestamp TIMESTAMP_FULL (DateTime_fields 2024 3 15 13 45 30) = Some ''2024-03-15T13:45:30''"
  by (simp add: timestamp_def DateTime_fields_def sprintf_02d_def digit_char_def char_of_def
      bit_simps)

section \<open>The claims about the calendar arithmetic\<close>

text \<open>
  Claim C1. For every valid calendar value \<open>V\<close> from 2001-01-01 to 2099-12-31 (month 1
  to 12, day valid for the month with leap years exactly those with \<open>yOff mod 4 = 0\<close>,
  hour 0 to 23, minute and second 0 to 59), \<open>unixtime\<close> returns a value, and the
  constructor from that Unix time gives \<open>V\<close> back, field for field.
\<close>

theorem unixtime_roundtrip:
  assumes "valid_2001_2099 V"
  shows "Option.bind (unixtime V) DateTime_unixtime = Some V"
proof -
  have v: "valid_calendar V"
    using assms by (simp add: valid_2001_2099_def)
  show ?thesis
    using roundtrip_general [OF v] by simp
qed

theorem unixtime_roundtrip_witness:
  "valid_2001_2099 (DateTime_fields 2024 3 15 13 45 30) \<and>
   unixtime (DateTime_fields 2024 3 15 13 45 30) = Some 1710510330 \<and>
   DateTime_unixtime 1710510330 = Some (DateTime_fields 2024 3 15 13 45 30)"
proof -
  have v: "valid_2001_2099 (DateTime_fields 2024 3 15 13 45 30)"
    using valid_2024_03_15 by (simp add: valid_2001_2099_def DateTime_fields_def)
  show ?thesis
    using v unixtime_roundtrip [OF v] by (simp add: unixtime_2024_03_15)
qed

text \<open>
  Claim C6. For every calendar value \<open>V\<close> of the valid range and every duration \<open>D\<close>
  such that \<open>V + D\<close> lies in the valid range too, \<open>(V + D) - V\<close> is computed and has the
  total seconds of \<open>D\<close>.
\<close>

theorem duration_additivity:
  assumes v: "valid_calendar V" and r: "sum_in_range V D"
  shows "map_option totalseconds (plus_then_minus V D) = Some (totalseconds D)"
proof -
  define u :: "32 word" where "u = of_nat (unix_seconds V)"
  have uv: "unixtime V = Some u"
    unfolding u_def using v by (rule unixtime_valid)
  have lo: "946684800 \<le> u + totalseconds D" and hi: "u + totalseconds D \<le> 4102444799"
    using r uv by (simp_all add: sum_in_range_def)
  obtain W where w: "valid_calendar W" and uw: "unixtime W = Some (u + totalseconds D)"
    using unixtime_onto [OF lo hi] by blast
  have "of_nat (unix_seconds W) = u + totalseconds D"
    using roundtrip_general(1) [OF w] uw by simp
  then have "DateTime_unixtime (u + totalseconds D) = Some W"
    using roundtrip_general(2) [OF w] by simp
  then have p: "DateTime_plus V D = Some W"
    using uv by (simp add: DateTime_plus_def)
  have "DateTime_minus W V = Some (TimeSpan_seconds (u + totalseconds D - u))"
    using uv uw by (simp add: DateTime_minus_def)
  then show ?thesis
    using p by (simp add: plus_then_minus_def TimeSpan_seconds_def totalseconds_def)
qed

theorem duration_additivity_witness:
  "valid_calendar (DateTime_fields 2024 3 15 13 45 30) \<and>
   sum_in_range (DateTime_fields 2024 3 15 13 45 30) (TimeSpan_seconds 86400) \<and>
   map_option totalseconds
     (plus_then_minus (DateTime_fields 2024 3 15 13 45 30) (TimeSpan_seconds 86400)) = Some 86400"
proof -
  have r: "sum_in_range (DateTime_fields 2024 3 15 13 45 30) (TimeSpan_seconds 86400)"
    by (simp add: sum_in_range_def unixtime_2024_03_15 TimeSpan_seconds_def totalseconds_def)
  show ?thesis
    using valid_2024_03_15 r duration_additivity [OF valid_2024_03_15 r]
    by (simp add: TimeSpan_seconds_def totalseconds_def)
qed

text \<open>
  Claim C4, as the code has it. The calendar value built from the fields (2024, 3, 15,
  13, 45, 30) has the Unix time 1710510330, the full timestamp
  \<open>2024-03-15T13:45:30\<close> and the day of the week 5 (Friday).
\<close>

theorem scenario_2024_03_15:
  "unixtime (DateTime_fields 2024 3 15 13 45 30) = Some 1710510330 \<and>
   timestamp TIMESTAMP_FULL (DateTime_fields 2024 3 15 13 45 30) = Some ''2024-03-15T13:45:30'' \<and>
   dayOfTheWeek (DateTime_fields 2024 3 15 13 45 30) = Some 5"
  by (simp add: unixtime_2024_03_15 timestamp_2024_03_15 dayOfTheWeek_2024_03_15)

text \<open>
  The Unix time that the claim states, 1710503130, is not the one computed: it is the
  Unix time of 11:45:30 on that day, 7200 seconds earlier.
\<close>

theorem scenario_2024_03_15_counterexample:
  "\<not> (unixtime (DateTime_fields 2024 3 15 13 45 30) = Some 1710503130 \<and>
      timestamp TIMESTAMP_FULL (DateTime_fields 2024 3 15 13 45 30) = Some ''2024-03-15T13:45:30'' \<and>
      dayOfTheWeek (DateTime_fields 2024 3 15 13 45 30) = Some 5)"
  by (simp add: unixtime_2024_03_15)

lemma unixtime_1710503130:
  "DateTime_unixtime 1710503130 = Some (DateTime_fields 2024 3 15 11 45 30)"
  by (simp add: DateTime_unixtime_def DateTime_fields_def year_loop.simps month_loop.simps
      leap_flag_def daysPerMonth_of_def pgm_read_daysInMonth_def daysInMonth_def
      SECONDS_FROM_1970_TO_2000_def Let_def)

section \<open>The claim about the BCD codec\<close>

lemma unat_bin2bcd:
  "unat b \<le> 99 \<Longrightarrow> unat (bin2bcd b) = unat b + 6 * (unat b div 10)"
  unfolding bin2bcd_def
  by (simp add: unat_word_ariths unat_div)

lemma bcd_tens_digit:
  fixes n :: nat
  assumes "n \<le> 99"
  shows "(n + 6 * (n div 10)) div 16 = n div 10"
proof -
  have "n + 6 * (n div 10) = 16 * (n div 10) + n mod 10"
    by presburger
  moreover have "n mod 10 < 16"
    by presburger
  ultimately show ?thesis by simp
qed

lemma unat_bcd2bin:
  assumes a: "6 * (unat v div 16) \<le> unat v"
  shows "unat (bcd2bin v) = unat v - 6 * (unat v div 16)"
proof -
  have v: "unat v < 256"
    using unsigned_less [of v, where ?'a = nat] by simp
  have d: "unat (drop_bit 4 v) = unat v div 16"
    by (simp add: unat_drop_bit_eq drop_bit_eq_div unat_div)
  have m: "unat (6 * drop_bit 4 v) = 6 * (unat v div 16)"
    using v by (simp add: unat_word_ariths d)
  have "6 * drop_bit 4 v \<le> v"
    using a m by (simp add: word_le_nat_alt)
  then show ?thesis
    unfolding bcd2bin_def using m by (simp add: unat_sub)
qed

text \<open>
  Claim C7. For every byte \<open>b\<close> with \<open>0 \<le> b \<le> 99\<close>, decoding the BCD encoding of
  \<open>b\<close> gives \<open>b\<close> back: \<open>bcd2bin (bin2bcd b) = b\<close>, in 8-bit arithmetic.
\<close>

theorem bcd_roundtrip: "b \<le> 99 \<Longrightarrow> bcd2bin (bin2bcd b) = b"
proof -
  assume "b \<le> 99"
  then have b: "unat b \<le> 99"
    by (simp add: word_le_nat_alt)
  have e: "unat (bin2bcd b) = unat b + 6 * (unat b div 10)"
    using b by (rule unat_bin2bcd)
  have q: "unat (bin2bcd b) div 16 = unat b div 10"
    using bcd_tens_digit [OF b] e by simp
  have "unat (bcd2bin (bin2bcd b)) = unat (bin2bcd b) - 6 * (unat (bin2bcd b) div 16)"
    by (rule unat_bcd2bin) (simp add: q e)
  then have "unat (bcd2bin (bin2bcd b)) = unat b"
    using q e by simp
  then show ?thesis
    by (simp add: word_unat_eq_iff)
qed

theorem bcd_roundtrip_witness:
  "(59 :: 8 word) \<le> 99 \<and> bin2bcd 59 = 0x59 \<and> bcd2bin (bin2bcd 59) = 59"
  using bcd_roundtrip [of 59] by (simp add: bin2bcd_def)

section \<open>The claims about the device session\<close>

lemmas urtclib_constants =
  URTCLIB_ALARM_1_def URTCLIB_ALARM_2_def URTCLIB_ALARM_TYPE_1_NONE_def
  URTCLIB_ALARM_TYPE_2_NONE_def URTCLIB_ALARM_TYPE_1_FIXED_HMS_def
  URTCLIB_ALARM_TYPE_2_FIXED_HM_def URTCLIB_SQWG_OFF_0_def URTCLIB_SQWG_OFF_1_def
  URTCLIB_SQWG_1H_def URTCLIB_SQWG_1024H_def URTCLIB_SQWG_4096H_def URTCLIB_SQWG_8192H_def
  URTCLIB_SQWG_32768H_def

subsection \<open>Bus transactions of a read-modify-write\<close>

lemma read_register:
  "Wire_read (Wire_requestFrom a (Suc 0) (Wire_endTransmission (Wire_write p (Wire_beginTransmission a w))))
   = (regs w p,
      w\<lparr>regs := regs w, reg_ptr := p + 1, tx_address := a, tx_buffer := [], rx_buffer := [],
        bus_log := bus_log w @ [Transmit a [p], Request a (Suc 0)]\<rparr>)"
  by (simp add: Wire_read_def Wire_requestFrom_def Wire_endTransmission_def Wire_write_def
      Wire_beginTransmission_def)

lemma write_register:
  "Wire_endTransmission (Wire_write b (Wire_write p (Wire_beginTransmission a w)))
   = w\<lparr>regs := (regs w)(p := b), reg_ptr := p + 1, tx_address := a, tx_buffer := [],
       bus_log := bus_log w @ [Transmit a [p, b]]\<rparr>"
  by (simp add: Wire_endTransmission_def Wire_write_def Wire_beginTransmission_def)

subsection \<open>Square wave and alarms\<close>

text \<open>
  What \<^verbatim>\<open>sqwgSetMode\<close> does for a mode that has a case in its \<^verbatim>\<open>switch\<close>: it returns
  \<open>True\<close> and writes the masked control byte, and the mirror of the alarms is reset
  only if the mode is \<^verbatim>\<open>URTCLIB_SQWG_OFF_1\<close>.
\<close>

lemma sqwgSetMode_wave:
  assumes "mode = URTCLIB_SQWG_1H \<or> mode = URTCLIB_SQWG_1024H \<or> mode = URTCLIB_SQWG_4096H
           \<or> mode = URTCLIB_SQWG_8192H"
  shows "fst (sqwgSetMode mode rtc w) = True"
    and "fst (snd (sqwgSetMode mode rtc w)) = rtc\<lparr>m_sqwg_mode := mode\<rparr>"
proof -
  have m: "sqwg_masks mode = (0b11100011, 0b00000000) \<or> sqwg_masks mode = (0b11101011, 0b00001000)
      \<or> sqwg_masks mode = (0b11110011, 0b00010000) \<or> sqwg_masks mode = (0b11111011, 0b00011000)"
    using assms by (elim disjE) (simp_all add: sqwg_masks_def urtclib_constants)
  have off: "mode \<noteq> URTCLIB_SQWG_OFF_1" "mode \<noteq> URTCLIB_SQWG_OFF_0"
    using assms by (elim disjE; simp add: urtclib_constants)+
  show "fst (sqwgSetMode mode rtc w) = True"
    using m by (elim disjE) (simp_all add: sqwgSetMode_def Let_def split_def)
  show "fst (snd (sqwgSetMode mode rtc w)) = rtc\<lparr>m_sqwg_mode := mode\<rparr>"
    using m off by (elim disjE) (simp_all add: sqwgSetMode_def Let_def split_def)
qed

lemma sqwgSetMode_off:
  "fst (sqwgSetMode URTCLIB_SQWG_OFF_1 rtc w) = True"
  "fst (snd (sqwgSetMode URTCLIB_SQWG_OFF_1 rtc w)) =
     rtc\<lparr>m_sqwg_mode := URTCLIB_SQWG_OFF_1, m_a1_mode := URTCLIB_ALARM_TYPE_1_NONE,
         m_a2_mode := URTCLIB_ALARM_TYPE_2_NONE\<rparr>"
  by (simp_all add: sqwgSetMode_def sqwg_masks_def Let_def read_register split_def)

text \<open>Alarm 1 armed by \<^verbatim>\<open>alarmSet\<close> for 07:30:00 on a new object.\<close>

lemma alarm1_armed_mirror:
  "fst (alarmSet URTCLIB_ALARM_TYPE_1_FIXED_HMS 0 30 7 1 uRTCLib_new (control_bus 0)) = True"
  "m_a1_mode (fst (snd (alarmSet URTCLIB_ALARM_TYPE_1_FIXED_HMS 0 30 7 1 uRTCLib_new (control_bus 0))))
     = URTCLIB_ALARM_TYPE_1_FIXED_HMS"
  "m_a2_mode (fst (snd (alarmSet URTCLIB_ALARM_TYPE_1_FIXED_HMS 0 30 7 1 uRTCLib_new (control_bus 0))))
     = URTCLIB_ALARM_TYPE_2_NONE"
  by (simp_all add: alarmSet_def Let_def split_def uRTCLib_new_def urtclib_constants)

text \<open>
  Claim C2, as the code has it. In every device state, and so in every state in which
  an alarm was armed by \<^verbatim>\<open>alarmSet\<close>, \<^verbatim>\<open>sqwgSetMode\<close> with a wave mode that is not off
  (1 Hz, 1024 Hz, 4096 Hz or 8192 Hz) succeeds and leaves both alarm mirrors as they
  were: \<^verbatim>\<open>alarmMode\<close> returns what it returned before. Both mirrors are set to their
  disabled modes by the mode \<^verbatim>\<open>URTCLIB_SQWG_OFF_1\<close>.
\<close>

theorem sqwgSetMode_alarm_mirrors:
  assumes "mode = URTCLIB_SQWG_1H \<or> mode = URTCLIB_SQWG_1024H \<or> mode = URTCLIB_SQWG_4096H
           \<or> mode = URTCLIB_SQWG_8192H"
  shows "fst (sqwgSetMode mode rtc w) = True \<and>
         alarmMode alarm (fst (snd (sqwgSetMode mode rtc w))) = alarmMode alarm rtc \<and>
         alarmMode URTCLIB_ALARM_1 (fst (snd (sqwgSetMode URTCLIB_SQWG_OFF_1 rtc w)))
           = URTCLIB_ALARM_TYPE_1_NONE \<and>
         alarmMode URTCLIB_ALARM_2 (fst (snd (sqwgSetMode URTCLIB_SQWG_OFF_1 rtc w)))
           = URTCLIB_ALARM_TYPE_2_NONE"
  unfolding sqwgSetMode_wave [OF assms] sqwgSetMode_off
  by (simp add: alarmMode_def URTCLIB_ALARM_1_def URTCLIB_ALARM_2_def
      URTCLIB_ALARM_TYPE_1_NONE_def URTCLIB_ALARM_TYPE_2_NONE_def)

theorem sqwgSetMode_alarm_mirrors_witness:
  "alarmMode URTCLIB_ALARM_1
     (fst (snd (alarmSet URTCLIB_ALARM_TYPE_1_FIXED_HMS 0 30 7 1 uRTCLib_new (control_bus 0))))
     = URTCLIB_ALARM_TYPE_1_FIXED_HMS \<and>
   fst (sqwgSetMode URTCLIB_SQWG_1024H
     (fst (snd (alarmSet URTCLIB_ALARM_TYPE_1_FIXED_HMS 0 30 7 1 uRTCLib_new (control_bus 0))))
     (snd (snd (alarmSet URTCLIB_ALARM_TYPE_1_FIXED_HMS 0 30 7 1 uRTCLib_new (control_bus 0)))))
     = True \<and>
   alarmMode URTCLIB_ALARM_1 (fst (snd (sqwgSetMode URTCLIB_SQWG_1024H
     (fst (snd (alarmSet URTCLIB_ALARM_TYPE_1_FIXED_HMS 0 30 7 1 uRTCLib_new (control_bus 0))))
     (snd (snd (alarmSet URTCLIB_ALARM_TYPE_1_FIXED_HMS 0 30 7 1 uRTCLib_new (control_bus 0)))))))
     = URTCLIB_ALARM_TYPE_1_FIXED_HMS"
  using sqwgSetMode_alarm_mirrors [of URTCLIB_SQWG_1024H
      "fst (snd (alarmSet URTCLIB_ALARM_TYPE_1_FIXED_HMS 0 30 7 1 uRTCLib_new (control_bus 0)))"
      "snd (snd (alarmSet URTCLIB_ALARM_TYPE_1_FIXED_HMS 0 30 7 1 uRTCLib_new (control_bus 0)))"
      URTCLIB_ALARM_1]
  by (simp add: alarmMode_def URTCLIB_ALARM_1_def alarm1_armed_mirror)

text \<open>
  The claim as stated fails: after alarm 1 was armed by \<^verbatim>\<open>alarmSet\<close>,
  \<^verbatim>\<open>sqwgSetMode(URTCLIB_SQWG_1H)\<close> does not leave both alarms in their disabled modes.
\<close>

theorem sqwgSetMode_alarm_mirrors_counterexample:
  "\<not> (alarmMode URTCLIB_ALARM_1 (fst (snd (sqwgSetMode URTCLIB_SQWG_1H
          (fst (snd (alarmSet URTCLIB_ALARM_TYPE_1_FIXED_HMS 0 30 7 1 uRTCLib_new (control_bus 0))))
          (snd (snd (alarmSet URTCLIB_ALARM_TYPE_1_FIXED_HMS 0 30 7 1 uRTCLib_new (control_bus 0)))))))
        = URTCLIB_ALARM_TYPE_1_NONE \<and>
      alarmMode URTCLIB_ALARM_2 (fst (snd (sqwgSetMode URTCLIB_SQWG_1H
          (fst (snd (alarmSet URTCLIB_ALARM_TYPE_1_FIXED_HMS 0 30 7 1 uRTCLib_new (control_bus 0))))
          (snd (snd (alarmSet URTCLIB_ALARM_TYPE_1_FIXED_HMS 0 30 7 1 uRTCLib_new (control_bus 0)))))))
        = URTCLIB_ALARM_TYPE_2_NONE)"
proof -
  have m: "URTCLIB_SQWG_1H = URTCLIB_SQWG_1H \<or> URTCLIB_SQWG_1H = URTCLIB_SQWG_1024H
      \<or> URTCLIB_SQWG_1H = URTCLIB_SQWG_4096H \<or> URTCLIB_SQWG_1H = URTCLIB_SQWG_8192H"
    by simp
  show ?thesis
    unfolding sqwgSetMode_wave(2) [OF m]
    unfolding alarmMode_def
    by (simp add: alarm1_armed_mirror)
       (simp add: URTCLIB_ALARM_TYPE_1_NONE_def URTCLIB_ALARM_TYPE_1_FIXED_HMS_def)
qed

text \<open>
  Claim C8. For every mode byte other than the five modes with a case in the
  \<^verbatim>\<open>switch\<close> (\<^verbatim>\<open>URTCLIB_SQWG_OFF_1\<close>, \<^verbatim>\<open>URTCLIB_SQWG_1H\<close>, \<^verbatim>\<open>URTCLIB_SQWG_1024H\<close>,
  \<^verbatim>\<open>URTCLIB_SQWG_4096H\<close>, \<^verbatim>\<open>URTCLIB_SQWG_8192H\<close>), \<^verbatim>\<open>sqwgSetMode\<close> returns \<open>False\<close>
  and leaves the object (the wave mode and both alarm modes with it) and the bus,
  with its log of transactions, as they were.
\<close>

theorem sqwgSetMode_unsupported:
  assumes "mode \<noteq> URTCLIB_SQWG_OFF_1" and "mode \<noteq> URTCLIB_SQWG_1H"
    and "mode \<noteq> URTCLIB_SQWG_1024H" and "mode \<noteq> URTCLIB_SQWG_4096H"
    and "mode \<noteq> URTCLIB_SQWG_8192H"
  shows "sqwgSetMode mode rtc w = (False, rtc, w)"
  using assms by (simp add: sqwgSetMode_def sqwg_masks_def)

theorem sqwgSetMode_unsupported_witness:
  "URTCLIB_SQWG_32768H \<noteq> URTCLIB_SQWG_OFF_1 \<and> URTCLIB_SQWG_32768H \<noteq> URTCLIB_SQWG_1H \<and>
   URTCLIB_SQWG_32768H \<noteq> URTCLIB_SQWG_1024H \<and> URTCLIB_SQWG_32768H \<noteq> URTCLIB_SQWG_4096H \<and>
   URTCLIB_SQWG_32768H \<noteq> URTCLIB_SQWG_8192H \<and>
   sqwgSetMode URTCLIB_SQWG_32768H both_armed (control_bus 0x1C)
     = (False, both_armed, control_bus 0x1C) \<and>
   bus_log (snd (snd (sqwgSetMode URTCLIB_SQWG_32768H both_armed (control_bus 0x1C)))) = []"
proof -
  have a: "URTCLIB_SQWG_32768H \<noteq> URTCLIB_SQWG_OFF_1" "URTCLIB_SQWG_32768H \<noteq> URTCLIB_SQWG_1H"
    "URTCLIB_SQWG_32768H \<noteq> URTCLIB_SQWG_1024H" "URTCLIB_SQWG_32768H \<noteq> URTCLIB_SQWG_4096H"
    "URTCLIB_SQWG_32768H \<noteq> URTCLIB_SQWG_8192H"
    by (simp_all add: URTCLIB_SQWG_32768H_def URTCLIB_SQWG_OFF_1_def URTCLIB_SQWG_1H_def
        URTCLIB_SQWG_1024H_def URTCLIB_SQWG_4096H_def URTCLIB_SQWG_8192H_def)
  show ?thesis
    using a sqwgSetMode_unsupported [OF a, of both_armed "control_bus 0x1C"]
    by (simp add: control_bus_def idle_bus_def)
qed

subsection \<open>Disabling an alarm\<close>

text \<open>
  What \<^verbatim>\<open>alarmDisable\<close> does for each of the two alarms, for every object and every
  control byte: it writes the control byte with bit 0 cleared and sets the mirror of
  alarm 1 to its disabled mode. For alarm 1 this is the frame the specification asks
  for; for alarm 2 it is not.
\<close>

lemma alarmDisable_effect:
  assumes "alarm = URTCLIB_ALARM_1 \<or> alarm = URTCLIB_ALARM_2"
  shows "fst (alarmDisable alarm rtc w) = True"
    and "regs (snd (snd (alarmDisable alarm rtc w))) 0x0E = regs w 0x0E AND 0b11111110"
    and "fst (snd (alarmDisable alarm rtc w)) = rtc\<lparr>m_a1_mode := URTCLIB_ALARM_TYPE_1_NONE\<rparr>"
  using assms
  by (auto simp: alarmDisable_def Let_def split_def read_register write_register
      URTCLIB_ALARM_1_def URTCLIB_ALARM_2_def URTCLIB_ALARM_TYPE_1_NONE_def
      URTCLIB_ALARM_TYPE_2_NONE_def)

lemma alarmDisable_alarm1_frame:
  "bit (regs (snd (snd (alarmDisable URTCLIB_ALARM_1 rtc w))) 0x0E) 0 = False"
  "bit (regs (snd (snd (alarmDisable URTCLIB_ALARM_1 rtc w))) 0x0E) 1 = bit (regs w 0x0E) 1"
  "bit (regs (snd (snd (alarmDisable URTCLIB_ALARM_1 rtc w))) 0x0E) 2 = bit (regs w 0x0E) 2"
  "alarmMode URTCLIB_ALARM_2 (fst (snd (alarmDisable URTCLIB_ALARM_1 rtc w)))
     = alarmMode URTCLIB_ALARM_2 rtc"
  by (simp_all add: alarmDisable_effect alarmMode_def bit_simps URTCLIB_ALARM_1_def
      URTCLIB_ALARM_2_def URTCLIB_ALARM_TYPE_1_NONE_def URTCLIB_ALARM_TYPE_2_NONE_def)

text \<open>
  Claim C3 at alarm 2, with both alarms armed and the control byte \<open>0x07\<close> (A1IE, A2IE
  and INTCN set): \<^verbatim>\<open>alarmDisable(URTCLIB_ALARM_2)\<close> writes \<open>0x06\<close>, so it clears the
  enable bit of alarm 1 (bit 0) and leaves the enable bit of alarm 2 (bit 1) set, and
  it sets the mirror of alarm 1 to its disabled mode while the mirror of alarm 2
  keeps its armed mode.
\<close>

theorem alarmDisable_alarm2_evaluation:
  "fst (alarmDisable URTCLIB_ALARM_2 both_armed (control_bus 0x07)) = True \<and>
   regs (snd (snd (alarmDisable URTCLIB_ALARM_2 both_armed (control_bus 0x07)))) 0x0E = 0x06 \<and>
   alarmMode URTCLIB_ALARM_1 (fst (snd (alarmDisable URTCLIB_ALARM_2 both_armed (control_bus 0x07))))
     = URTCLIB_ALARM_TYPE_1_NONE \<and>
   alarmMode URTCLIB_ALARM_1 both_armed = URTCLIB_ALARM_TYPE_1_FIXED_HMS \<and>
   alarmMode URTCLIB_ALARM_2 (fst (snd (alarmDisable URTCLIB_ALARM_2 both_armed (control_bus 0x07))))
     = URTCLIB_ALARM_TYPE_2_FIXED_HM"
  by (simp add: alarmDisable_effect alarmMode_def both_armed_def control_bus_def idle_bus_def
      URTCLIB_ALARM_1_def URTCLIB_ALARM_2_def URTCLIB_ALARM_TYPE_1_NONE_def
      URTCLIB_ALARM_TYPE_2_NONE_def)

subsection \<open>Reading the time\<close>

lemma read_seven:
  "Wire_requestFrom a 7 (Wire_endTransmission (Wire_write 0 (Wire_beginTransmission a w)))
   = w\<lparr>regs := regs w, reg_ptr := 7, tx_address := a, tx_buffer := [],
       rx_buffer := [regs w 0, regs w 1, regs w 2, regs w 3, regs w 4, regs w 5, regs w 6],
       bus_log := bus_log w @ [Transmit a [0], Request a 7]\<rparr>"
  by (simp add: Wire_requestFrom_def Wire_endTransmission_def Wire_write_def
      Wire_beginTransmission_def numeral_eq_Suc)

lemma now_result:
  shows "fst (now rtc w) =
     DateTime_fields (ucast (bcd2bin (regs w 6)) + 2000) (bcd2bin (regs w 5)) (bcd2bin (regs w 4))
       (bcd2bin (regs w 2)) (bcd2bin (regs w 1)) (bcd2bin (regs w 0 AND 0x7F))"
  and "fst (snd (now rtc w)) = rtc"
  by (simp_all add: now_def Let_def split_def read_seven Wire_read_def)

lemma year_of_byte:
  fixes b :: "8 word"
  shows "2000 \<le> (ucast b + 2000 :: 16 word)"
    and "(ucast ((ucast b + 2000 :: 16 word) - 2000) :: 8 word) = b"
proof -
  have u: "unat (ucast b :: 16 word) = unat b"
    by (rule unat_ucast_8_16)
  have "unat b < 256"
    using unsigned_less [of b, where ?'a = nat] by simp
  then have "unat (ucast b + 2000 :: 16 word) = unat b + 2000"
    using u by (simp add: unat_word_ariths)
  then show "2000 \<le> (ucast b + 2000 :: 16 word)"
    by (simp add: word_le_nat_alt)
  have "unat (ucast (ucast b :: 16 word) :: 8 word) = unat b"
    using \<open>unat b < 256\<close> u by (simp add: unat_ucast_16_8)
  then show "(ucast ((ucast b + 2000 :: 16 word) - 2000) :: 8 word) = b"
    by (simp add: word_unat_eq_iff)
qed

text \<open>
  What \<^verbatim>\<open>now\<close> returns, for every seven bytes that the bus hands out for the
  addresses \<open>0x00\<close> to \<open>0x06\<close>: a \<^verbatim>\<open>DateTime\<close> whose accessors give the bytes decoded
  with the BCD codec (bit 7 of the seconds byte masked off, the weekday byte ignored),
  the year as 2000 plus the decoded byte. The object itself is returned as it was
  (\<open>now_result\<close>): no member of the mirror is assigned.
\<close>

lemma now_returns_decoded:
  "DateTime_second (fst (now rtc w)) = bcd2bin (regs w 0 AND 0x7F) \<and>
   DateTime_minute (fst (now rtc w)) = bcd2bin (regs w 1) \<and>
   DateTime_hour (fst (now rtc w)) = bcd2bin (regs w 2) \<and>
   DateTime_day (fst (now rtc w)) = bcd2bin (regs w 4) \<and>
   DateTime_month (fst (now rtc w)) = bcd2bin (regs w 5) \<and>
   DateTime_year (fst (now rtc w)) = 2000 + ucast (bcd2bin (regs w 6))"
  using year_of_byte [of "bcd2bin (regs w 6)"]
  by (simp add: now_result DateTime_fields_def DateTime_second_def
      DateTime_minute_def DateTime_hour_def DateTime_day_def DateTime_month_def DateTime_year_def)

lemma clock_bus_decoded:
  "bcd2bin (regs clock_bus 0 AND 0x7F) = 25" "bcd2bin (regs clock_bus 1) = 59"
  "bcd2bin (regs clock_bus 2) = 23" "bcd2bin (regs clock_bus 4) = 31"
  "bcd2bin (regs clock_bus 5) = 12" "bcd2bin (regs clock_bus 6) = 99"
  by (simp_all add: clock_bus_def idle_bus_def bcd2bin_def)

lemma now_clock_bus:
  "fst (now uRTCLib_new clock_bus) = DateTime_fields 2099 12 31 23 59 25"
  by (simp add: now_result clock_bus_def idle_bus_def bcd2bin_def DateTime_fields_def)

text \<open>
  Claim C5 on a new object, in front of a chip whose time registers hold 2099-12-31
  23:59:25: the seven bytes decode to the second 25, the minute 59, the hour 23, the
  day 31, the month 12 and the year 99, and \<^verbatim>\<open>now\<close> returns them in its \<^verbatim>\<open>DateTime\<close>,
  but it stores none of them in the mirror: after the call the accessors
  \<^verbatim>\<open>second()\<close>, \<^verbatim>\<open>minute()\<close>, \<^verbatim>\<open>hour()\<close>, \<^verbatim>\<open>day()\<close>, \<^verbatim>\<open>month()\<close> and
  \<^verbatim>\<open>year()\<close> of the object still return the initial 0, not the values just read.
\<close>

theorem now_mirror_evaluation:
  "bcd2bin (regs clock_bus 0 AND 0x7F) = 25 \<and> bcd2bin (regs clock_bus 1) = 59 \<and>
   bcd2bin (regs clock_bus 2) = 23 \<and> bcd2bin (regs clock_bus 4) = 31 \<and>
   bcd2bin (regs clock_bus 5) = 12 \<and> bcd2bin (regs clock_bus 6) = 99 \<and>
   fst (now uRTCLib_new clock_bus) = DateTime_fields 2099 12 31 23 59 25 \<and>
   uRTCLib_second (fst (snd (now uRTCLib_new clock_bus))) = 0 \<and>
   uRTCLib_minute (fst (snd (now uRTCLib_new clock_bus))) = 0 \<and>
   uRTCLib_hour (fst (snd (now uRTCLib_new clock_bus))) = 0 \<and>
   uRTCLib_day (fst (snd (now uRTCLib_new clock_bus))) = 0 \<and>
   uRTCLib_month (fst (snd (now uRTCLib_new clock_bus))) = 0 \<and>
   uRTCLib_year (fst (snd (now uRTCLib_new clock_bus))) = 0"
  by (simp add: clock_bus_decoded now_clock_bus now_result uRTCLib_new_def uRTCLib_second_def
      uRTCLib_minute_def uRTCLib_hour_def uRTCLib_day_def uRTCLib_month_def uRTCLib_year_def)

subsection \<open>The RAM\<close>



section \<open>The claim about toString\<close>

lemmas toString_evaluation =
  toString_def toString_loop.simps loop_cond_def toString_body_def and_then_def
  subst_numeric_def subst_day_def subst_month_def subst_year_def buf_read_def buf_write_def
  two_digits_def year_digits_def digit_char_def

text \<open>
  Claim C10 at the empty pattern. The array holds the terminator only, so
  \<^verbatim>\<open>strlen(buffer)\<close> is 0 and the bound \<^verbatim>\<open>strlen(buffer) - 1\<close> of the loop is the largest
  \<^verbatim>\<open>size_t\<close>. The round for \<open>i = 0\<close> reads the terminator nine times (once for each
  condition of the body), and the round for \<open>i = 1\<close> reads index 1, behind the
  terminator: the run ends there with a fault, for a 16-bit and for a 32-bit
  \<^verbatim>\<open>size_t\<close>, whatever the calendar value is.
\<close>

theorem toString_empty_pattern:
  "strlen [CHR 0x00] = Some 0 \<and>
   toString 16 dt [CHR 0x00]
     = Inl (BufferFault (Read 1), ([CHR 0x00], [Read 0, Read 0, Read 0, Read 0, Read 0, Read 0, Read 0, Read 0, Read 0])) \<and>
   toString 32 dt [CHR 0x00]
     = Inl (BufferFault (Read 1), ([CHR 0x00], [Read 0, Read 0, Read 0, Read 0, Read 0, Read 0, Read 0, Read 0, Read 0]))"
  by (simp add: toString_evaluation)

text \<open>
  When the array is longer than the string, the loop goes on behind the terminator and
  rewrites what it finds there: with the empty pattern in an array that holds
  \<open>hh\<close> behind the terminator, the hour is written to the indices 1 and 2, and the
  run ends with a fault at the end of the array.
\<close>

lemma toString_empty_pattern_overwrites:
  "strlen [CHR 0x00, CHR ''h'', CHR ''h'', CHR 0x00] = Some 0 \<and>
   (case toString 16 (DateTime_fields 2024 3 15 13 45 30) [CHR 0x00, CHR ''h'', CHR ''h'', CHR 0x00] of
      Inl (f, b, tr) \<Rightarrow>
        f = BufferFault (Read 4) \<and> b = [CHR 0x00, CHR ''1'', CHR ''3'', CHR 0x00] \<and>
        Write 1 \<in> set tr \<and> Write 2 \<in> set tr
    | Inr s \<Rightarrow> False)"
  by (simp add: toString_evaluation DateTime_fields_def char_of_def bit_simps)

lemma copy_pgm_three: "copy_pgm tbl p i 3 s = copy_pgm tbl p i (Suc (Suc (Suc 0))) s"
  by (simp add: numeral_3_eq_3)

text \<open>
  A pattern with tokens, for comparison: the loop stops at the last but one character
  and returns the rewritten pattern.
\<close>

lemma toString_pattern_example:
  "map_sum fst fst (toString 16 (DateTime_fields 2024 3 15 13 45 30) (''DDD hh:mm'' @ [CHR 0x00]))
   = Inr (''Fri 13:45'' @ [CHR 0x00])"
  by (simp add: toString_evaluation DateTime_fields_def char_of_def bit_simps copy_pgm_three
      dayOfTheWeek_def date2days_def date2days_loop.simps pgm_read_daysInMonth_def daysInMonth_def
      day_names_def pgm_read_string_def)

subsection \<open>Patterns of at least one character\<close>

lemma strlen_Some:
  "strlen xs = Some n \<longleftrightarrow> n < length xs \<and> xs ! n = CHR 0x00 \<and> (\<forall>k<n. xs ! k \<noteq> CHR 0x00)"
proof (induction xs arbitrary: n)
  case Nil
  then show ?case by simp
next
  case (Cons c cs)
  show ?case
  proof (cases "c = CHR 0x00")
    case True
    then show ?thesis by (cases n) auto
  next
    case False
    show ?thesis
    proof (cases n)
      case 0
      then show ?thesis using False by auto
    next
      case (Suc m)
      have "(\<forall>k<Suc m. (c # cs) ! k \<noteq> CHR 0x00) = (\<forall>k<m. cs ! k \<noteq> CHR 0x00)"
        using False by (auto simp: less_Suc_eq_0_disj)
      then show ?thesis
        using False Suc Cons.IH [of m] by auto
    qed
  qed
qed

lemma buf_read_within:
  assumes "within_string n s" and "k \<le> n"
  shows "\<exists>s'. buf_read k s = Inr (fst s ! k, s') \<and> within_string n s' \<and> fst s' = fst s"
  using assms by (auto simp: within_string_def buf_read_def strlen_Some)

lemma buf_write_within:
  assumes "within_string n s" and "k < n" and "c \<noteq> CHR 0x00"
  shows "\<exists>s'. buf_write k c s = Inr s' \<and> within_string n s'"
proof -
  have len: "k < length (fst s)"
    using assms by (auto simp: within_string_def strlen_Some)
  have "strlen ((fst s)[k := c]) = Some n"
    using assms by (auto simp: within_string_def strlen_Some nth_list_update)
  then show ?thesis
    using assms len by (simp add: within_string_def buf_write_def)
qed

lemma expect_within:
  assumes "within_string n s" and "i \<le> n" and "CHR 0x00 \<notin> set cs"
  shows "\<exists>b s'. expect i cs s = Inr (b, s') \<and> within_string n s' \<and> (b \<longrightarrow> i + length cs \<le> n)"
  using assms
proof (induction cs arbitrary: i s)
  case Nil
  then show ?case by auto
next
  case (Cons c cs)
  obtain s1 where r: "buf_read i s = Inr (fst s ! i, s1)" and w1: "within_string n s1"
    and f1: "fst s1 = fst s"
    using buf_read_within [OF Cons.prems(1,2)] by blast
  show ?case
  proof (cases "fst s ! i = c")
    case True
    have "fst s ! n = CHR 0x00"
      using Cons.prems(1) by (simp add: within_string_def strlen_Some)
    then have "i \<noteq> n"
      using True Cons.prems(3) by auto
    then have lt: "Suc i \<le> n"
      using Cons.prems(2) by simp
    obtain b s' where "expect (Suc i) cs s1 = Inr (b, s')" and "within_string n s'"
      and "b \<longrightarrow> Suc i + length cs \<le> n"
      using Cons.IH [OF w1 lt] Cons.prems(3) by auto
    then show ?thesis
      using r True by auto
  next
    case False
    then show ?thesis
      using r w1 by auto
  qed
qed

lemma store_at_within:
  assumes "within_string n s" and "i + length cs \<le> n" and "CHR 0x00 \<notin> set cs"
  shows "\<exists>s'. store_at i cs s = Inr s' \<and> within_string n s'"
  using assms
proof (induction cs arbitrary: i s)
  case Nil
  then show ?case by simp
next
  case (Cons c cs)
  obtain s1 where w: "buf_write i c s = Inr s1" and w1: "within_string n s1"
    using buf_write_within [of n s i c] Cons.prems by auto
  obtain s' where "store_at (Suc i) cs s1 = Inr s'" and "within_string n s'"
    using Cons.IH [OF w1, of "Suc i"] Cons.prems by auto
  then show ?case
    using w by auto
qed

lemma copy_pgm_within:
  assumes "within_string n s" and "i + k \<le> n"
    and "\<forall>j<k. \<exists>c. pgm_read_string tbl (p + int j) = Some c \<and> c \<noteq> CHR 0x00"
  shows "\<exists>s'. copy_pgm tbl p i k s = Inr s' \<and> within_string n s'"
  using assms
proof (induction k arbitrary: p i s)
  case 0
  then show ?case by simp
next
  case (Suc k)
  obtain c where c: "pgm_read_string tbl p = Some c" and nz: "c \<noteq> CHR 0x00"
    using Suc.prems(3) by force
  obtain s1 where w: "buf_write i c s = Inr s1" and w1: "within_string n s1"
    using buf_write_within [of n s i c] Suc.prems nz by auto
  have "\<forall>j<k. \<exists>c. pgm_read_string tbl (p + 1 + int j) = Some c \<and> c \<noteq> CHR 0x00"
  proof (intro allI impI)
    fix j
    assume "j < k"
    then have "\<exists>c. pgm_read_string tbl (p + int (Suc j)) = Some c \<and> c \<noteq> CHR 0x00"
      using Suc.prems(3) by (meson Suc_less_eq)
    then show "\<exists>c. pgm_read_string tbl (p + 1 + int j) = Some c \<and> c \<noteq> CHR 0x00"
      by (simp add: add.assoc)
  qed
  then obtain s' where "copy_pgm tbl (p + 1) (Suc i) k s1 = Inr s'" and "within_string n s'"
    using Suc.IH [OF w1, of "Suc i" "p + 1"] Suc.prems(2) by auto
  then show ?case
    using c w by auto
qed

lemma digit_char_not_NUL: "x < 208 \<Longrightarrow> digit_char x \<noteq> CHR 0x00"
proof
  assume x: "x < 208" and "digit_char x = CHR 0x00"
  then have "(of_char (char_of (48 + x)) :: nat) = of_char (CHR 0x00)"
    by (simp add: digit_char_def)
  then have "(48 + x) mod 256 = 0"
    by (simp add: of_char_of)
  then show False
    using x by simp
qed

lemma two_digits_ok: "CHR 0x00 \<notin> set (two_digits v) \<and> length (two_digits v) = 2"
proof -
  have "unat v < 256"
    using unsigned_less [of v, where ?'a = nat] by simp
  then have "unat v div 10 < 208" and "unat v mod 10 < 208"
    by simp_all
  then have "digit_char (unat v div 10) \<noteq> CHR 0x00" and "digit_char (unat v mod 10) \<noteq> CHR 0x00"
    by (simp_all add: digit_char_not_NUL)
  then show ?thesis
    by (auto simp: two_digits_def)
qed

lemma year_digits_ok: "CHR 0x00 \<notin> set (year_digits v) \<and> length (year_digits v) = 2"
proof -
  have "unat v div 10 mod 10 < 208" and "unat v mod 10 < 208"
    by simp_all
  then have "digit_char (unat v div 10 mod 10) \<noteq> CHR 0x00"
    and "digit_char (unat v mod 10) \<noteq> CHR 0x00"
    by (simp_all add: digit_char_not_NUL)
  then show ?thesis
    by (auto simp: year_digits_def)
qed

lemma subst_numeric_within:
  assumes "within_string n s" and "i \<le> n" and "c \<noteq> CHR 0x00"
    and "CHR 0x00 \<notin> set ds \<and> length ds = 2"
  shows "\<exists>s'. subst_numeric c ds i s = Inr s' \<and> within_string n s'"
proof -
  obtain b s1 where e: "expect i [c, c] s = Inr (b, s1)" and w1: "within_string n s1"
    and b: "b \<longrightarrow> i + length [c, c] \<le> n"
    using expect_within [OF assms(1,2), of "[c, c]"] assms(3) by auto
  show ?thesis
  proof (cases b)
    case True
    then have "i + length ds \<le> n"
      using b assms(4) by simp
    then obtain s' where "store_at i ds s1 = Inr s'" and "within_string n s'"
      using store_at_within [OF w1] assms(4) by blast
    then show ?thesis
      using e True by (simp add: subst_numeric_def and_then_def)
  next
    case False
    then show ?thesis
      using e w1 by (simp add: subst_numeric_def and_then_def)
  qed
qed

lemma name_table_read:
  assumes "CHR 0x00 \<notin> set xs" and "k < length xs"
  shows "\<exists>c. pgm_read_string (xs @ [CHR 0x00]) (int k) = Some c \<and> c \<noteq> CHR 0x00"
proof -
  have "xs ! k \<in> set xs"
    using assms(2) by simp
  then have "xs ! k \<noteq> CHR 0x00"
    using assms(1) by auto
  then show ?thesis
    using assms(2) by (simp add: pgm_read_string_def nth_append)
qed

lemma dayOfTheWeek_defined:
  assumes "1 \<le> unat (dt_m dt)" and "unat (dt_m dt) \<le> 12"
  shows "\<exists>dow. dayOfTheWeek dt = Some dow \<and> unat dow < 7"
proof -
  obtain days where "date2days_loop 1 (dt_m dt) (ucast (dt_d dt)) = Some days"
    using date2days_loop_sum [of 1 "unat (dt_m dt)" 1 "dt_m dt" "ucast (dt_d dt)"] assms by simp
  then obtain day where d: "date2days (ucast (dt_yOff dt)) (dt_m dt) (dt_d dt) = Some day"
    by (simp add: date2days_def Let_def)
  have "unat (of_nat ((unat day + 6) mod 7) :: 8 word) = (unat day + 6) mod 7"
    by (simp add: unat_of_nat)
  then have "unat (of_nat ((unat day + 6) mod 7) :: 8 word) < 7"
    by simp
  then show ?thesis
    using d by (simp add: dayOfTheWeek_def)
qed

lemma subst_day_within:
  assumes w: "within_string n s" and i: "i \<le> n"
    and m: "1 \<le> unat (dt_m dt)" "unat (dt_m dt) \<le> 12"
  shows "\<exists>s'. subst_day dt i s = Inr s' \<and> within_string n s'"
proof -
  obtain b s1 where e: "expect i ''DDD'' s = Inr (b, s1)" and w1: "within_string n s1"
    and b: "b \<longrightarrow> i + length ''DDD'' \<le> n"
    using expect_within [OF w i, of "''DDD''"] by auto
  show ?thesis
  proof (cases b)
    case True
    obtain dow where dow: "dayOfTheWeek dt = Some dow" and lt: "unat dow < 7"
      using dayOfTheWeek_defined [OF m] by blast
    have rd: "\<forall>j<3. \<exists>c. pgm_read_string day_names (3 * int (unat dow) + int j) = Some c \<and> c \<noteq> CHR 0x00"
    proof (intro allI impI)
      fix j :: nat
      assume "j < 3"
      then have k: "3 * unat dow + j < length ''SunMonTueWedThuFriSat''"
        using lt by simp
      have "\<exists>c. pgm_read_string (''SunMonTueWedThuFriSat'' @ [CHR 0x00]) (int (3 * unat dow + j)) = Some c
              \<and> c \<noteq> CHR 0x00"
        by (rule name_table_read [OF _ k]) simp
      then show "\<exists>c. pgm_read_string day_names (3 * int (unat dow) + int j) = Some c \<and> c \<noteq> CHR 0x00"
        by (simp add: day_names_def)
    qed
    have "i + 3 \<le> n"
      using b True by simp
    then obtain s' where "copy_pgm day_names (3 * int (unat dow)) i 3 s1 = Inr s'"
      and "within_string n s'"
      using copy_pgm_within [OF w1 _ rd] by blast
    then show ?thesis
      using e True dow by (simp add: subst_day_def and_then_def)
  next
    case False
    have "\<exists>t. subst_numeric CHR ''D'' (two_digits (dt_d dt)) i s1 = Inr t \<and> within_string n t"
      by (rule subst_numeric_within [OF w1 i _ two_digits_ok]) simp
    then obtain s' where "subst_numeric CHR ''D'' (two_digits (dt_d dt)) i s1 = Inr s'"
      and "within_string n s'"
      by blast
    then show ?thesis
      using e False by (simp add: subst_day_def and_then_def)
  qed
qed

lemma subst_month_within:
  assumes w: "within_string n s" and i: "i \<le> n"
    and m: "1 \<le> unat (dt_m dt)" "unat (dt_m dt) \<le> 12"
  shows "\<exists>s'. subst_month dt i s = Inr s' \<and> within_string n s'"
proof -
  obtain b s1 where e: "expect i ''MMM'' s = Inr (b, s1)" and w1: "within_string n s1"
    and b: "b \<longrightarrow> i + length ''MMM'' \<le> n"
    using expect_within [OF w i, of "''MMM''"] by auto
  show ?thesis
  proof (cases b)
    case True
    have rd: "\<forall>j<3. \<exists>c. pgm_read_string month_names (3 * (int (unat (dt_m dt)) - 1) + int j) = Some c
        \<and> c \<noteq> CHR 0x00"
    proof (intro allI impI)
      fix j :: nat
      assume "j < 3"
      then have k: "3 * (unat (dt_m dt) - 1) + j < length ''JanFebMarAprMayJunJulAugSepOctNovDec''"
        using m by simp
      have eq: "3 * (int (unat (dt_m dt)) - 1) + int j = int (3 * (unat (dt_m dt) - 1) + j)"
        using m(1) by (simp add: of_nat_diff)
      have "\<exists>c. pgm_read_string (''JanFebMarAprMayJunJulAugSepOctNovDec'' @ [CHR 0x00])
                (int (3 * (unat (dt_m dt) - 1) + j)) = Some c \<and> c \<noteq> CHR 0x00"
        by (rule name_table_read [OF _ k]) simp
      then show "\<exists>c. pgm_read_string month_names (3 * (int (unat (dt_m dt)) - 1) + int j) = Some c
          \<and> c \<noteq> CHR 0x00"
        unfolding eq by (simp add: month_names_def)
    qed
    have "i + 3 \<le> n"
      using b True by simp
    then obtain s' where "copy_pgm month_names (3 * (int (unat (dt_m dt)) - 1)) i 3 s1 = Inr s'"
      and "within_string n s'"
      using copy_pgm_within [OF w1 _ rd] by blast
    then show ?thesis
      using e True by (simp add: subst_month_def and_then_def)
  next
    case False
    have "\<exists>t. subst_numeric CHR ''M'' (two_digits (dt_m dt)) i s1 = Inr t \<and> within_string n t"
      by (rule subst_numeric_within [OF w1 i _ two_digits_ok]) simp
    then obtain s' where "subst_numeric CHR ''M'' (two_digits (dt_m dt)) i s1 = Inr s'"
      and "within_string n s'"
      by blast
    then show ?thesis
      using e False by (simp add: subst_month_def and_then_def)
  qed
qed

lemma subst_year_within:
  assumes w: "within_string n s" and i: "i \<le> n"
  shows "\<exists>s'. subst_year dt i s = Inr s' \<and> within_string n s'"
proof -
  obtain b s1 where e: "expect i ''YYYY'' s = Inr (b, s1)" and w1: "within_string n s1"
    and b: "b \<longrightarrow> i + length ''YYYY'' \<le> n"
    using expect_within [OF w i, of "''YYYY''"] by auto
  show ?thesis
  proof (cases b)
    case True
    have "i + length (''20'' @ year_digits (dt_yOff dt)) \<le> n"
      using b True year_digits_ok [of "dt_yOff dt"] by simp
    moreover have "CHR 0x00 \<notin> set (''20'' @ year_digits (dt_yOff dt))"
      using year_digits_ok [of "dt_yOff dt"] by simp
    ultimately obtain s' where "store_at i (''20'' @ year_digits (dt_yOff dt)) s1 = Inr s'"
      and "within_string n s'"
      using store_at_within [OF w1] by blast
    then show ?thesis
      using e True by (simp add: subst_year_def and_then_def del: store_at.simps append.simps)
  next
    case False
    have "\<exists>t. subst_numeric CHR ''Y'' (year_digits (dt_yOff dt)) i s1 = Inr t \<and> within_string n t"
      by (rule subst_numeric_within [OF w1 i _ year_digits_ok]) simp
    then obtain s' where "subst_numeric CHR ''Y'' (year_digits (dt_yOff dt)) i s1 = Inr s'"
      and "within_string n s'"
      by blast
    then show ?thesis
      using e False by (simp add: subst_year_def and_then_def)
  qed
qed

lemma toString_body_within:
  assumes w: "within_string n s" and i: "i \<le> n"
    and m: "1 \<le> unat (dt_m dt)" "unat (dt_m dt) \<le> 12"
  shows "\<exists>s'. toString_body dt i s = Inr s' \<and> within_string n s'"
proof -
  have "\<exists>t. subst_numeric CHR ''h'' (two_digits (dt_hh dt)) i s = Inr t \<and> within_string n t"
    by (rule subst_numeric_within [OF w i _ two_digits_ok]) simp
  then obtain s1 where a1: "subst_numeric CHR ''h'' (two_digits (dt_hh dt)) i s = Inr s1"
    and w1: "within_string n s1"
    by blast
  have "\<exists>t. subst_numeric CHR ''m'' (two_digits (dt_mm dt)) i s1 = Inr t \<and> within_string n t"
    by (rule subst_numeric_within [OF w1 i _ two_digits_ok]) simp
  then obtain s2 where a2: "subst_numeric CHR ''m'' (two_digits (dt_mm dt)) i s1 = Inr s2"
    and w2: "within_string n s2"
    by blast
  have "\<exists>t. subst_numeric CHR ''s'' (two_digits (dt_ss dt)) i s2 = Inr t \<and> within_string n t"
    by (rule subst_numeric_within [OF w2 i _ two_digits_ok]) simp
  then obtain s3 where a3: "subst_numeric CHR ''s'' (two_digits (dt_ss dt)) i s2 = Inr s3"
    and w3: "within_string n s3"
    by blast
  obtain s4 where a4: "subst_day dt i s3 = Inr s4" and w4: "within_string n s4"
    using subst_day_within [OF w3 i m] by blast
  obtain s5 where a5: "subst_month dt i s4 = Inr s5" and w5: "within_string n s5"
    using subst_month_within [OF w4 i m] by blast
  obtain s6 where a6: "subst_year dt i s5 = Inr s6" and w6: "within_string n s6"
    using subst_year_within [OF w5 i] by blast
  show ?thesis
    using a1 a2 a3 a4 a5 a6 w6 by (simp add: toString_body_def and_then_def)
qed

lemma loop_cond_plain:
  assumes "1 \<le> n" and "n < 2 ^ (bits - 1)" and "i \<le> n"
  shows "loop_cond bits i n \<longleftrightarrow> i < n - 1"
proof -
  define P :: nat where "P = 2 ^ bits"
  have "(2 :: nat) ^ (bits - 1) \<le> 2 ^ bits"
    by (rule power_increasing) simp_all
  then have nb: "n < P"
    unfolding P_def by (rule less_le_trans [OF assms(2)])
  have ib: "i < P"
    using assms(3) nb by (rule le_less_trans)
  have i: "i mod P = i"
    using ib by (rule mod_less)
  have "n + P - 1 = P + (n - 1)"
    using assms(1) by arith
  moreover have "(P + (n - 1)) mod P = (n - 1) mod P"
    by (rule mod_add_self1)
  moreover have "(n - 1) mod P = n - 1"
    using nb by (intro mod_less) arith
  ultimately have "(n + P - 1) mod P = n - 1"
    by simp
  then show ?thesis
    unfolding loop_cond_def P_def [symmetric] i by simp
qed

lemma toString_loop_within:
  assumes "within_string n s" and "1 \<le> n" and "n < 2 ^ (bits - 1)" and "i \<le> n - 1"
    and "1 \<le> unat (dt_m dt)" and "unat (dt_m dt) \<le> 12"
  shows "\<exists>s'. toString_loop bits dt i s = Inr s' \<and> within_string n s'"
  using assms
proof (induction "n - 1 - i" arbitrary: i s)
  case 0
  then have "\<not> loop_cond bits i n"
    by (simp add: loop_cond_plain)
  then show ?case
    using "0.prems"(1) by (subst toString_loop.simps) (simp add: within_string_def)
next
  case (Suc k)
  then have lt: "i < n - 1"
    by simp
  then have c: "loop_cond bits i n"
    using Suc.prems by (simp add: loop_cond_plain)
  have "i \<le> n"
    using lt by simp
  then obtain s1 where b: "toString_body dt i s = Inr s1" and w1: "within_string n s1"
    using toString_body_within [OF Suc.prems(1) _ Suc.prems(5,6)] by blast
  have no: "\<not> 2 ^ (bits - 1) \<le> Suc i"
    using lt Suc.prems(3) by simp
  have k: "k = n - 1 - Suc i" and le: "Suc i \<le> n - 1"
    using Suc.hyps(2) lt by simp_all
  obtain s' where "toString_loop bits dt (Suc i) s1 = Inr s'" and "within_string n s'"
    using Suc.hyps(1) [OF k w1 Suc.prems(2,3) le Suc.prems(5,6)] by blast
  then show ?case
    using c b no Suc.prems(1) by (subst toString_loop.simps) (simp add: within_string_def)
qed

text \<open>
  For every pattern of at least one character (and a month of 1 to 12, so that the name
  tables are read inside their bounds), \<^verbatim>\<open>toString\<close> returns, the terminator stays
  where it was, and every index read or written is at most the index of the
  terminator.
\<close>

lemma toString_nonempty_within:
  assumes "strlen buffer = Some n" and "1 \<le> n" and "n < 2 ^ (bits - 1)"
    and "1 \<le> unat (dt_m dt)" and "unat (dt_m dt) \<le> 12"
  shows "\<exists>b tr. toString bits dt buffer = Inr (b, tr) \<and> strlen b = Some n \<and>
           list_all (\<lambda>a. access_index a \<le> n) tr"
proof -
  have "within_string n (buffer, [])"
    using assms(1) by (simp add: within_string_def)
  then obtain s' where "toString_loop bits dt 0 (buffer, []) = Inr s'" and "within_string n s'"
    using toString_loop_within [OF _ assms(2,3) _ assms(4,5), of "(buffer, [])" 0] by auto
  then show ?thesis
    by (cases s') (simp add: toString_def within_string_def)
qed

end
